theory Spec2Isabelle
  imports Complex_Main "HOL-Library.Word"
begin

section \<open>climate.c: data model\<close>

text \<open>
  The program is modelled for an LP64 target: \<open>unsigned int\<close> and \<open>int\<close> are 32 bits,
  \<open>unsigned long long\<close>, \<open>long\<close> and pointers are 64 bits. Integer fields are words, so
  every \<open>+= 1\<close> wraps as the machine does. A \<open>double\<close> is modelled as a real number:
  comparison and assignment are exact, sums and quotients are the ideal ones (no rounding,
  no NaN, no infinity).
\<close>

type_synonym uint = "32 word"
type_synonym cint = "32 word"
type_synonym ullong = "64 word"

text \<open>\<open>struct climate_info\<close>, field by field.\<close>

record climate_info =
  code :: string
  num_records :: uint
  avgHumidity :: real
  temperature :: real
  maxTemp :: real
  maxTempTimestamp :: ullong
  minTemp :: real
  minTempTimestamp :: ullong
  lightning :: cint
  snow :: cint
  cloud :: real
  geoLocation :: ullong
  pressure :: real

text \<open>
  \<open>struct climate_info *states[NUM_STATES]\<close>: an array of pointers, \<open>None\<close> for \<open>NULL\<close>.
  Every struct is allocated by its own \<open>calloc\<close>, so no two entries alias.
\<close>

type_synonym table = "climate_info option list"

definition NUM_STATES :: nat where
  "NUM_STATES = 50"

text \<open>
  The ways the process stops inside \<open>analyze_file\<close>: a read through a null pointer
  (\<open>strtok\<close> returned \<open>NULL\<close> and the result is passed to \<open>strcmp\<close>, \<open>strcpy\<close>,
  \<open>atof\<close>, \<open>atoi\<close> or dereferenced), a \<open>strcpy\<close> past the end of \<open>code[3]\<close>, and the
  explicit \<open>exit(EXIT_FAILURE)\<close> of line 189, which carries the number printed by its message.
\<close>

datatype abort = NullDeref | BufferOverflow | TooManyStates nat

definition bind_abort :: "abort + 'a \<Rightarrow> ('a \<Rightarrow> abort + 'b) \<Rightarrow> abort + 'b" where
  "bind_abort m f = (case m of Inl e \<Rightarrow> Inl e | Inr x \<Rightarrow> f x)"

definition deref :: "'a option \<Rightarrow> abort + 'a" where
  "deref p = (case p of None \<Rightarrow> Inl NullDeref | Some x \<Rightarrow> Inr x)"

text \<open>
  The C library's conversions are parameters of the model: every theorem below holds for
  whatever \<open>atof\<close>, \<open>atoi\<close> and \<open>atoll\<close> compute. \<open>atoi\<close> gives the bit pattern of its
  \<open>int\<close>, \<open>atoll\<close> that of its \<open>long long\<close> (which the code stores in an
  \<open>unsigned long long\<close>).
\<close>

record libc =
  atof :: "string \<Rightarrow> real"
  atoi :: "string \<Rightarrow> cint"
  atoll :: "string \<Rightarrow> ullong"

section \<open>Reading and tokenizing\<close>

definition tab :: char where
  "tab = CHR 0x09"

definition newline :: char where
  "newline = CHR 0x0A"

definition NUL :: char where
  "NUL = CHR 0x00"

definition line_sz :: nat where
  "line_sz = 100"

text \<open>
  \<open>fgets(line, sz, file)\<close> on the unread rest of a file: it stores at most \<open>sz - 1\<close>
  characters, stops after a newline, and returns \<open>NULL\<close> at end of file when nothing was
  read. The result is the buffer's contents and the rest of the file.
\<close>

fun fgets_split :: "nat \<Rightarrow> string \<Rightarrow> string \<times> string" where
  "fgets_split 0 cs = ([], cs)"
| "fgets_split (Suc n) [] = ([], [])"
| "fgets_split (Suc n) (c # cs) =
     (if c = newline then ([c], cs)
      else (case fgets_split n cs of (l, r) \<Rightarrow> (c # l, r)))"

definition fgets :: "nat \<Rightarrow> string \<Rightarrow> (string \<times> string) option" where
  "fgets sz file = (if file = [] then None else Some (fgets_split (sz - 1) file))"

text \<open>The buffer as a C string: it ends at the first NUL byte.\<close>

definition c_str :: "string \<Rightarrow> string" where
  "c_str buf = takeWhile (\<lambda>c. c \<noteq> NUL) buf"

text \<open>
  \<open>strtok(s, "\t\n")\<close>, with the saved pointer made explicit: the call skips leading
  delimiters, returns \<open>NULL\<close> when nothing is left, and otherwise returns the token and
  saves the position after the delimiter that ended it. \<open>strtok(NULL, "\t\n")\<close> is the same
  function applied to the saved rest.
\<close>

definition is_delim :: "char \<Rightarrow> bool" where
  "is_delim c \<longleftrightarrow> c = tab \<or> c = newline"

definition strtok :: "string \<Rightarrow> string option \<times> string" where
  "strtok s =
     (let s1 = dropWhile is_delim s in
      if s1 = [] then (None, [])
      else (Some (takeWhile (\<lambda>c. \<not> is_delim c) s1),
            drop 1 (dropWhile (\<lambda>c. \<not> is_delim c) s1)))"

section \<open>The aggregator\<close>

text \<open>\<open>countStates\<close>: the number of leading non-null entries.\<close>

fun countStates_loop :: "table \<Rightarrow> nat \<Rightarrow> nat" where
  "countStates_loop [] num = num"
| "countStates_loop (None # rest) num = num"
| "countStates_loop (Some s # rest) num = countStates_loop rest (Suc num)"

definition countStates :: "table \<Rightarrow> nat \<Rightarrow> nat" where
  "countStates states num_states = countStates_loop (take num_states states) 0"

text \<open>
  \<open>compareOrder\<close>: the index of the first entry whose code compares equal, \<open>None\<close> for
  the \<open>-1\<close> of the source. \<open>strcmp\<close> of two C strings is 0 exactly when they are equal; it
  reads through its second argument, so a null \<open>codex\<close> faults at the first entry compared.
\<close>

fun compareOrder_loop :: "table \<Rightarrow> string option \<Rightarrow> nat \<Rightarrow> abort + nat option" where
  "compareOrder_loop [] codex order = Inr None"
| "compareOrder_loop (None # rest) codex order = Inr None"
| "compareOrder_loop (Some s # rest) codex order =
     (case codex of
        None \<Rightarrow> Inl NullDeref
      | Some c \<Rightarrow> if code s = c then Inr (Some order)
                  else compareOrder_loop rest codex (Suc order))"

definition compareOrder :: "table \<Rightarrow> string option \<Rightarrow> nat \<Rightarrow> abort + nat option" where
  "compareOrder states codex currentStates =
     compareOrder_loop (take currentStates states) codex 0"

text \<open>
  \<open>calloc(sizeof(struct climate_info), 1)\<close>: every byte zero. The allocation is taken
  to succeed.
\<close>

definition calloc_info :: climate_info where
  "calloc_info =
     \<lparr>code = [], num_records = 0, avgHumidity = 0, temperature = 0, maxTemp = 0,
      maxTempTimestamp = 0, minTemp = 0, minTempTimestamp = 0, lightning = 0, snow = 0,
      cloud = 0, geoLocation = 0, pressure = 0\<rparr>"

text \<open>
  \<open>strcpy(states[currentStates]->code, foundCode)\<close> into \<open>char code[3]\<close>: the string and
  its terminator must fit in three bytes. A longer code is written past the end of the
  field, which is undefined behaviour and stops the model.
\<close>

definition strcpy_code :: "string option \<Rightarrow> abort + string" where
  "strcpy_code src =
     (case src of
        None \<Rightarrow> Inl NullDeref
      | Some c \<Rightarrow> if length c + 1 > 3 then Inl BufferOverflow else Inr c)"

text \<open>Lines 191 to 194: the new entry.\<close>

definition new_info :: "string \<Rightarrow> climate_info" where
  "new_info c = calloc_info\<lparr>code := c, minTemp := - 9999, maxTemp := 9999\<rparr>"

text \<open>
  \<open>geoLocation += *currentGeol\<close>: the pointer moves by the value of the first character,
  a signed \<open>char\<close>.
\<close>

definition char_offset :: "string \<Rightarrow> ullong" where
  "char_offset s =
     (case s of [] \<Rightarrow> 0 | c # _ \<Rightarrow> of_int (sint (of_char c :: 8 word)))"

text \<open>
  Lines 199 to 235: the fields of one line folded into its entry. \<open>r1\<close> is what
  \<open>strtok\<close> saved after the state code.
\<close>

definition update_info :: "libc \<Rightarrow> climate_info \<Rightarrow> string \<Rightarrow> abort + climate_info" where
  "update_info L info0 r1 =
     (let info1 = info0\<lparr>num_records := num_records info0 + 1\<rparr> in
      case strtok r1 of (currentTimeStamp, r2) \<Rightarrow>
      case strtok r2 of (currentGeol, r3) \<Rightarrow>
      bind_abort (deref currentGeol) (\<lambda>g.
      let info2 = info1\<lparr>geoLocation := geoLocation info1 + char_offset g\<rparr> in
      case strtok r3 of (currentHumidity, r4) \<Rightarrow>
      bind_abort (deref currentHumidity) (\<lambda>h.
      let info3 = info2\<lparr>avgHumidity := avgHumidity info2 + atof L h\<rparr> in
      case strtok r4 of (currentSnow, r5) \<Rightarrow>
      bind_abort (deref currentSnow) (\<lambda>s.
      let info4 = info3\<lparr>snow := snow info3 + atoi L s\<rparr> in
      case strtok r5 of (currentCloud, r6) \<Rightarrow>
      bind_abort (deref currentCloud) (\<lambda>c.
      let info5 = info4\<lparr>cloud := cloud info4 + atof L c\<rparr> in
      case strtok r6 of (currentLightning, r7) \<Rightarrow>
      bind_abort (deref currentLightning) (\<lambda>l.
      let info6 = info5\<lparr>lightning := lightning info5 + atoi L l\<rparr> in
      case strtok r7 of (currentPressure, r8) \<Rightarrow>
      bind_abort (deref currentPressure) (\<lambda>p.
      let info7 = info6\<lparr>pressure := pressure info6 + atof L p\<rparr> in
      case strtok r8 of (currentTemp, r9) \<Rightarrow>
      bind_abort (deref currentTemp) (\<lambda>t.
      let temp = atof L t;
          info8 = info7\<lparr>temperature := temperature info7 + temp\<rparr> in
      if temp < minTemp info8 then
        bind_abort (deref currentTimeStamp) (\<lambda>ts.
          Inr (info8\<lparr>minTemp := temp, minTempTimestamp := atoll L ts\<rparr>))
      else if temp > maxTemp info8 then
        bind_abort (deref currentTimeStamp) (\<lambda>ts.
          Inr (info8\<lparr>maxTemp := temp, maxTempTimestamp := atoll L ts\<rparr>))
      else Inr info8))))))))"

text \<open>
  Lines 184 to 196: the entry for the code, created in the next open place when
  \<open>compareOrder\<close> did not find it. The result is the array, \<open>currentStates\<close> and
  \<open>stateNumOrder\<close>. The array has \<open>num_states\<close> elements (\<open>main\<close> passes
  \<open>NUM_STATES\<close> for both), so the index written is inside it.
\<close>

definition find_or_create ::
  "nat \<Rightarrow> table \<times> nat \<Rightarrow> string option \<Rightarrow> abort + (table \<times> nat \<times> nat)" where
  "find_or_create num_states sc foundCode =
     (case sc of (states, currentStates) \<Rightarrow>
      bind_abort (compareOrder states foundCode currentStates) (\<lambda>stateNumOrder.
      case stateNumOrder of
        Some k \<Rightarrow> Inr (states, currentStates, k)
      | None \<Rightarrow>
          if currentStates \<ge> num_states then Inl (TooManyStates currentStates)
          else bind_abort (strcpy_code foundCode) (\<lambda>c.
            Inr (states[currentStates := Some (new_info c)],
                 Suc currentStates, currentStates))))"

text \<open>The body of the \<open>while\<close> loop of \<open>analyze_file\<close>, for one buffer returned by \<open>fgets\<close>.\<close>

definition process_line ::
  "libc \<Rightarrow> nat \<Rightarrow> table \<times> nat \<Rightarrow> string \<Rightarrow> abort + (table \<times> nat)" where
  "process_line L num_states sc line =
     (case strtok (c_str line) of (foundCode, r1) \<Rightarrow>
      bind_abort (find_or_create num_states sc foundCode) (\<lambda>(states, currentStates, k).
      bind_abort (deref (states ! k)) (\<lambda>info.
      bind_abort (update_info L info r1) (\<lambda>info'.
        Inr (states[k := Some info'], currentStates)))))"

lemma fgets_split_length:
  "fgets_split n cs = (l, r) \<Longrightarrow> length l + length r = length cs"
  by (induction n cs arbitrary: l r rule: fgets_split.induct)
     (auto split: if_splits prod.splits)

lemma fgets_split_progress:
  "fgets_split (Suc n) (c # cs) = (l, r) \<Longrightarrow> length r < Suc (length cs)"
  by (auto split: if_splits prod.splits dest: fgets_split_length)

lemma fgets_shorter:
  "fgets line_sz file = Some (line, rest) \<Longrightarrow> length rest < length file"
  by (cases "file") (auto simp: fgets_def line_sz_def numeral_eq_Suc
      simp del: fgets_split.simps dest: fgets_split_progress)

text \<open>The \<open>while (fgets(line, line_sz, file) != NULL)\<close> loop.\<close>

function analyze_loop ::
  "libc \<Rightarrow> nat \<Rightarrow> table \<times> nat \<Rightarrow> string \<Rightarrow> abort + (table \<times> nat)" where
  "analyze_loop L num_states sc file =
     (case fgets line_sz file of
        None \<Rightarrow> Inr sc
      | Some (line, rest) \<Rightarrow>
          (case process_line L num_states sc line of
             Inl e \<Rightarrow> Inl e
           | Inr sc' \<Rightarrow> analyze_loop L num_states sc' rest))"
  by pat_completeness auto
termination
  by (relation "measure (\<lambda>(L, num_states, sc, file). length file)")
     (auto dest: fgets_shorter)

declare analyze_loop.simps [simp del]

definition analyze_file :: "libc \<Rightarrow> string \<Rightarrow> table \<Rightarrow> nat \<Rightarrow> abort + table" where
  "analyze_file L file states num_states =
     (case analyze_loop L num_states (states, countStates states num_states) file of
        Inl e \<Rightarrow> Inl e
      | Inr (states', currentStates) \<Rightarrow> Inr states')"

section \<open>The reporter\<close>

text \<open>
  Standard output, one constructor for each \<open>printf\<close> of \<open>print_report\<close>; the stored
  value is the argument passed. The averages and temperatures are printed with
  \<open>%.1f\<close> (one decimal), the counts with \<open>%d\<close>, the dates by \<open>ctime\<close> of the
  seconds given.
\<close>

datatype out_line =
    StatesFound "string list"
  | StateHeader string
  | NumberOfRecords uint
  | AverageHumidity "real option"
  | AverageTemperature "real option"
  | MaxTemperature real
  | MaxTemperatureOn ullong
  | MinTemperature real
  | MinTemperatureOn ullong
  | LightningStrikes cint
  | RecordsWithSnowCover cint
  | AverageCloudCover "real option"

text \<open>
  A \<open>double\<close> divided by \<open>num_records\<close> (converted to \<open>double\<close>). Dividing by zero does
  not trap: the quotient is an infinity or a NaN, which is \<open>None\<close> here.
\<close>

definition ddiv :: "real \<Rightarrow> uint \<Rightarrow> real option" where
  "ddiv x n = (if n = 0 then None else Some (x / real (unat n)))"

definition fahrenheit :: "real \<Rightarrow> real" where
  "fahrenheit k = k * 1.8 - 459.67"

text \<open>Lines 257 to 273: the block of one state.\<close>

definition state_block :: "climate_info \<Rightarrow> out_line list" where
  "state_block info =
     (let MAX_sec = maxTempTimestamp info div 1000;
          MIN_sec = minTempTimestamp info div 1000;
          aTemp = map_option fahrenheit (ddiv (temperature info) (num_records info));
          lTemp = fahrenheit (minTemp info);
          hTemp = fahrenheit (maxTemp info)
      in [StateHeader (code info),
          NumberOfRecords (num_records info),
          AverageHumidity (ddiv (avgHumidity info) (num_records info)),
          AverageTemperature aTemp,
          MaxTemperature hTemp,
          MaxTemperatureOn MAX_sec,
          MinTemperature lTemp,
          MinTemperatureOn MIN_sec,
          LightningStrikes (lightning info),
          RecordsWithSnowCover (snow info),
          AverageCloudCover (ddiv (cloud info) (num_records info))])"

text \<open>The first loop prints the code of every non-null entry.\<close>

fun found_codes :: "table \<Rightarrow> string list" where
  "found_codes [] = []"
| "found_codes (None # rest) = found_codes rest"
| "found_codes (Some info # rest) = code info # found_codes rest"

text \<open>The second loop stops at the first null entry.\<close>

fun state_blocks :: "table \<Rightarrow> out_line list" where
  "state_blocks [] = []"
| "state_blocks (None # rest) = []"
| "state_blocks (Some info # rest) = state_block info @ state_blocks rest"

definition print_report :: "table \<Rightarrow> nat \<Rightarrow> out_line list" where
  "print_report states num_states =
     StatesFound (found_codes (take num_states states))
     # state_blocks (take num_states states)"

section \<open>main\<close>

text \<open>
  The file system is a parameter: \<open>fs path\<close> is the contents of the file \<open>fopen\<close> opens,
  \<open>None\<close> when \<open>fopen\<close> returns \<open>NULL\<close>.
\<close>

datatype err_line =
    Usage "string option"
  | CouldNotOpen nat
  | TooManyStatesMsg nat

datatype exit_status = ExitStatus nat | Crashed abort

record run =
  exit_status :: exit_status
  stderr :: "err_line list"
  stdout :: "out_line list"

text \<open>The \<open>for\<close> loop of \<open>main\<close>, from argument \<open>i\<close> on; \<open>paths\<close> are \<open>argv[i..]\<close>.\<close>

fun main_loop ::
  "libc \<Rightarrow> (string \<Rightarrow> string option) \<Rightarrow> nat \<Rightarrow> string list \<Rightarrow> table \<Rightarrow> err_line list
     \<Rightarrow> (abort \<times> err_line list) + (table \<times> err_line list)" where
  "main_loop L fs i [] states err = Inr (states, err)"
| "main_loop L fs i (path # paths) states err =
     (case fs path of
        None \<Rightarrow> main_loop L fs (Suc i) paths states (err @ [CouldNotOpen i])
      | Some file \<Rightarrow>
          (case analyze_file L file states NUM_STATES of
             Inl e \<Rightarrow> Inl (e, err)
           | Inr states' \<Rightarrow> main_loop L fs (Suc i) paths states' err))"

definition main :: "libc \<Rightarrow> (string \<Rightarrow> string option) \<Rightarrow> string list \<Rightarrow> run" where
  "main L fs argv =
     (if length argv < 2 then
        \<lparr>exit_status = ExitStatus 1,
         stderr = [Usage (case argv of [] \<Rightarrow> None | a # _ \<Rightarrow> Some a)],
         stdout = []\<rparr>
      else
        (case main_loop L fs 1 (tl argv) (replicate NUM_STATES None) [] of
           Inl (TooManyStates n, err) \<Rightarrow>
             \<lparr>exit_status = ExitStatus 1, stderr = err @ [TooManyStatesMsg n], stdout = []\<rparr>
         | Inl (e, err) \<Rightarrow>
             \<lparr>exit_status = Crashed e, stderr = err, stdout = []\<rparr>
         | Inr (states, err) \<Rightarrow>
             \<lparr>exit_status = ExitStatus 0, stderr = err,
              stdout = print_report states NUM_STATES\<rparr>))"

section \<open>Concrete inputs\<close>

text \<open>
  For evaluating the program on concrete files: the conversions on plain decimal text
  (optional sign, digits, optional fraction), where the C library's result is the number
  written.
\<close>

definition is_digit :: "char \<Rightarrow> bool" where
  "is_digit c \<longleftrightarrow> 48 \<le> (of_char c :: int) \<and> (of_char c :: int) \<le> 57"

fun dec_digits :: "int \<Rightarrow> string \<Rightarrow> int" where
  "dec_digits acc [] = acc"
| "dec_digits acc (c # cs) =
     (if is_digit c then dec_digits (10 * acc + (of_char c - 48)) cs else acc)"

definition dec_int :: "string \<Rightarrow> int" where
  "dec_int s =
     (case s of
        [] \<Rightarrow> 0
      | c # cs \<Rightarrow> if c = CHR ''-'' then - dec_digits 0 cs
                  else if c = CHR ''+'' then dec_digits 0 cs
                  else dec_digits 0 s)"

definition dec_frac :: "string \<Rightarrow> real" where
  "dec_frac s =
     (case dropWhile is_digit s of
        [] \<Rightarrow> 0
      | c # cs \<Rightarrow> if c = CHR ''.''
                  then real_of_int (dec_digits 0 cs) / 10 ^ length (takeWhile is_digit cs)
                  else 0)"

definition dec_real :: "string \<Rightarrow> real" where
  "dec_real s =
     (case s of
        [] \<Rightarrow> 0
      | c # cs \<Rightarrow> if c = CHR ''-'' then - (real_of_int (dec_digits 0 cs) + dec_frac cs)
                  else if c = CHR ''+'' then real_of_int (dec_digits 0 cs) + dec_frac cs
                  else real_of_int (dec_digits 0 s) + dec_frac s)"

definition libc_dec :: libc where
  "libc_dec = \<lparr>atof = dec_real, atoi = (\<lambda>s. of_int (dec_int s)),
               atoll = (\<lambda>s. of_int (dec_int s))\<rparr>"

text \<open>A line of a TDV file: the fields separated by tabs, ended by a newline.\<close>

fun tdv_fields :: "string list \<Rightarrow> string" where
  "tdv_fields [] = []"
| "tdv_fields [f] = f"
| "tdv_fields (f # fs) = f @ tab # tdv_fields fs"

definition tdv_line :: "string list \<Rightarrow> string" where
  "tdv_line fds = tdv_fields fds @ [newline]"

text \<open>The one-line input of the specification's scenario.\<close>

definition scenario_line :: string where
  "scenario_line =
     tdv_line [''TN'', ''1000'', ''geo'', ''50.0'', ''0'', ''60.0'', ''1'', ''1000.0'', ''290.0'']"

text \<open>
  A run over three arguments: \<open>a.tdv\<close> holds a line for WA and the scenario line for TN,
  \<open>missing.tdv\<close> does not open, \<open>b.tdv\<close> holds one more line for WA.
\<close>

definition example_fs :: "string \<Rightarrow> string option" where
  "example_fs p =
     (if p = ''a.tdv'' then
        Some (tdv_line [''WA'', ''2000'', ''c23'', ''61.0'', ''1'', ''40.0'', ''0'', ''990.0'',
                ''280.0''] @ scenario_line)
      else if p = ''b.tdv'' then
        Some (tdv_line [''WA'', ''3000'', ''c24'', ''63.0'', ''0'', ''50.0'', ''1'', ''995.0'',
                ''300.0''])
      else None)"

definition example_argv :: "string list" where
  "example_argv = [''climate'', ''a.tdv'', ''missing.tdv'', ''b.tdv'']"

text \<open>The array at the end of that run.\<close>

definition example_states :: table where
  "example_states =
     Some \<lparr>code = ''WA'', num_records = 2, avgHumidity = 124, temperature = 580,
           maxTemp = 9999, maxTempTimestamp = 0, minTemp = - 9999, minTempTimestamp = 0,
           lightning = 1, snow = 1, cloud = 90, geoLocation = 198, pressure = 1985\<rparr>
     # Some \<lparr>code = ''TN'', num_records = 1, avgHumidity = 50, temperature = 290,
             maxTemp = 9999, maxTempTimestamp = 0, minTemp = - 9999, minTempTimestamp = 0,
             lightning = 1, snow = 0, cloud = 60, geoLocation = 103, pressure = 1000\<rparr>
     # replicate 48 None"

text \<open>A file whose first line has five fields, followed by the scenario line.\<close>

definition short_line :: string where
  "short_line = tdv_line [''TN'', ''1000'', ''geo'', ''50.0'', ''0'']"

definition short_fs :: "string \<Rightarrow> string option" where
  "short_fs p = (if p = ''short.tdv'' then Some (short_line @ scenario_line) else None)"

text \<open>
  A file of 51 lines, each for a state code of its own (AA, AB, ... , AZ, BA, ... , BY).
\<close>

definition state_code :: "nat \<Rightarrow> string" where
  "state_code k = [char_of (65 + k div 26), char_of (65 + k mod 26)]"

definition state_line :: "nat \<Rightarrow> string" where
  "state_line k =
     tdv_line [state_code k, ''1000'', ''geo'', ''50.0'', ''0'', ''60.0'', ''1'', ''1000.0'',
       ''290.0'']"

definition crowded_fs :: "string \<Rightarrow> string option" where
  "crowded_fs p =
     (if p = ''crowded.tdv'' then Some (concat (map state_line [0..<51])) else None)"

text \<open>
  A physical line of 136 characters before its newline: the fields of a record for TN, whose
  geolocation field is 63 characters long, so that the ninth tab is the 99th character,
  followed on the same line by the fields of a record for WA.
\<close>

definition long_body :: string where
  "long_body =
     tdv_fields [''TN'', ''1000'',
       ''9prcjqk3yc809prcjqk3yc809prcjqk3yc809prcjqk3yc809prcjqk3yc809pr'',
       ''50.0'', ''0'', ''60.0'', ''1'', ''1000.0'', ''290.0'',
       ''WA'', ''2000'', ''c23'', ''61.0'', ''1'', ''40.0'', ''0'', ''990.0'', ''280.0'']"

text \<open>
  A record of nine fields that is 99 characters long, 100 with its newline: the
  geolocation field has 64 characters.
\<close>

definition exact_body :: string where
  "exact_body =
     tdv_fields [''TN'', ''1000'',
       ''9prcjqk3yc809prcjqk3yc809prcjqk3yc809prcjqk3yc809prcjqk3yc809prc'',
       ''50.0'', ''0'', ''60.0'', ''1'', ''1000.0'', ''290.0'']"

definition long_states :: table where
  "long_states =
     Some \<lparr>code = ''TN'', num_records = 1, avgHumidity = 50, temperature = 290,
           maxTemp = 9999, maxTempTimestamp = 0, minTemp = - 9999, minTempTimestamp = 0,
           lightning = 1, snow = 0, cloud = 60, geoLocation = 57, pressure = 1000\<rparr>
     # Some \<lparr>code = ''WA'', num_records = 1, avgHumidity = 61, temperature = 280,
             maxTemp = 9999, maxTempTimestamp = 0, minTemp = - 9999, minTempTimestamp = 0,
             lightning = 0, snow = 1, cloud = 40, geoLocation = 99, pressure = 990\<rparr>
     # replicate 48 None"

text \<open>A file of \<open>2 ^ 32\<close> copies of the scenario line, and a file system holding it.\<close>

definition big_file :: string where
  "big_file = concat (replicate (2 ^ 32) scenario_line)"

definition big_fs :: "string \<Rightarrow> string option" where
  "big_fs p = (if p = ''big.tdv'' then Some big_file else None)"

section \<open>The lines of a run\<close>

text \<open>The buffers that the loop of \<open>analyze_file\<close> reads from a file, in order.\<close>

function file_lines :: "string \<Rightarrow> string list" where
  "file_lines file =
     (case fgets line_sz file of
        None \<Rightarrow> []
      | Some (line, rest) \<Rightarrow> line # file_lines rest)"
  by pat_completeness auto
termination
  by (relation "measure length") (auto dest: fgets_shorter)

declare file_lines.simps [simp del]

text \<open>The loop body applied to a list of buffers, stopping at the first abort.\<close>

fun process_lines ::
  "libc \<Rightarrow> nat \<Rightarrow> table \<times> nat \<Rightarrow> string list \<Rightarrow> abort + (table \<times> nat)" where
  "process_lines L num_states sc [] = Inr sc"
| "process_lines L num_states sc (line # rest) =
     (case process_line L num_states sc line of
        Inl e \<Rightarrow> Inl e
      | Inr sc' \<Rightarrow> process_lines L num_states sc' rest)"

text \<open>Every buffer read in a run: the lines of the files that open, in argument order.\<close>

definition input_lines :: "(string \<Rightarrow> string option) \<Rightarrow> string list \<Rightarrow> string list" where
  "input_lines fs paths =
     concat (map (\<lambda>p. case fs p of None \<Rightarrow> [] | Some file \<Rightarrow> file_lines file) paths)"

text \<open>
  The result of the \<open>k\<close>-th call of \<open>strtok\<close> on a string (counting from 0), and the
  \<open>k\<close>-th field of a buffer: \<open>None\<close> when the buffer has fewer than \<open>k + 1\<close> fields.
\<close>

fun strtok_n :: "nat \<Rightarrow> string \<Rightarrow> string option \<times> string" where
  "strtok_n 0 s = strtok s"
| "strtok_n (Suc k) s = strtok_n k (snd (strtok s))"

definition field :: "nat \<Rightarrow> string \<Rightarrow> string option" where
  "field k line = fst (strtok_n k (c_str line))"

text \<open>The codes of a list, each at its first occurrence.\<close>

fun first_seen :: "'a list \<Rightarrow> 'a list" where
  "first_seen [] = []"
| "first_seen (x # xs) = x # filter (\<lambda>y. y \<noteq> x) (first_seen xs)"

text \<open>The state codes of the buffers read (the first field of each that has one).\<close>

definition line_codes :: "string list \<Rightarrow> string list" where
  "line_codes ls = List.map_filter (field 0) ls"

text \<open>The buffers whose first field is the code \<open>c\<close>.\<close>

definition lines_of :: "string \<Rightarrow> string list \<Rightarrow> string list" where
  "lines_of c ls = filter (\<lambda>l. field 0 l = Some c) ls"

text \<open>
  The humidity and the temperature that a line contributes: \<open>atof\<close> of its fourth and
  of its ninth field.
\<close>

definition humidity_of :: "libc \<Rightarrow> string \<Rightarrow> real" where
  "humidity_of L l = (case field 3 l of None \<Rightarrow> 0 | Some h \<Rightarrow> atof L h)"

definition temperature_of :: "libc \<Rightarrow> string \<Rightarrow> real" where
  "temperature_of L l = (case field 8 l of None \<Rightarrow> 0 | Some t \<Rightarrow> atof L t)"

text \<open>The aggregation of a list of files, in order, and the files that open.\<close>

fun analyze_files :: "libc \<Rightarrow> string list \<Rightarrow> table \<Rightarrow> abort + table" where
  "analyze_files L [] states = Inr states"
| "analyze_files L (fl # fls) states =
     (case analyze_file L fl states NUM_STATES of
        Inl e \<Rightarrow> Inl e
      | Inr states' \<Rightarrow> analyze_files L fls states')"

definition opened :: "(string \<Rightarrow> string option) \<Rightarrow> string list \<Rightarrow> string list" where
  "opened fs paths = List.map_filter fs paths"

text \<open>
  A line that the loop body can fold: it has its nine fields, and its state code fits
  \<open>code[3]\<close>.
\<close>

definition well_formed :: "string \<Rightarrow> bool" where
  "well_formed l \<longleftrightarrow>
     field 8 l \<noteq> None \<and> (case field 0 l of None \<Rightarrow> False | Some c \<Rightarrow> length c \<le> 2)"

text \<open>A line of a file that one \<open>fgets\<close> reads whole: it ends in its only newline.\<close>

definition short_enough :: "string \<Rightarrow> bool" where
  "short_enough l \<longleftrightarrow>
     l \<noteq> [] \<and> last l = newline \<and> newline \<notin> set (butlast l) \<and> length l < line_sz"

text \<open>The non-null entries of the array.\<close>

definition entries :: "table \<Rightarrow> climate_info list" where
  "entries states = List.map_filter id states"

section \<open>The run on the entries alone\<close>

text \<open>
  The array always holds its entries in front and null pointers behind, so the loop can
  be followed on the list of entries. The definitions of this section serve the proofs.
\<close>

text \<open>The entry after a line whose eight fields are given.\<close>

definition fold_fields ::
  "libc \<Rightarrow> climate_info \<Rightarrow> string \<Rightarrow> string \<Rightarrow> string \<Rightarrow> string \<Rightarrow> string \<Rightarrow> string
     \<Rightarrow> string \<Rightarrow> string \<Rightarrow> climate_info" where
  "fold_fields L a ts g h s c l p t =
     (let b = a\<lparr>num_records := num_records a + 1,
                geoLocation := geoLocation a + char_offset g,
                avgHumidity := avgHumidity a + atof L h,
                snow := snow a + atoi L s,
                cloud := cloud a + atof L c,
                lightning := lightning a + atoi L l,
                pressure := pressure a + atof L p,
                temperature := temperature a + atof L t\<rparr>
      in if atof L t < minTemp a then b\<lparr>minTemp := atof L t, minTempTimestamp := atoll L ts\<rparr>
         else if atof L t > maxTemp a then b\<lparr>maxTemp := atof L t, maxTempTimestamp := atoll L ts\<rparr>
         else b)"

text \<open>What \<open>strtok\<close> saves after the state code of a buffer.\<close>

definition line_rest :: "string \<Rightarrow> string" where
  "line_rest l = snd (strtok (c_str l))"

text \<open>The array with its entries in front.\<close>

definition tbl :: "nat \<Rightarrow> climate_info list \<Rightarrow> table" where
  "tbl n accs = map Some accs @ replicate (n - length accs) None"

text \<open>The index of the first entry with the code \<open>c\<close>.\<close>

fun code_index :: "string \<Rightarrow> climate_info list \<Rightarrow> nat option" where
  "code_index c [] = None"
| "code_index c (a # accs) =
     (if code a = c then Some 0 else map_option Suc (code_index c accs))"

text \<open>The loop body on the entries alone.\<close>

definition absorb :: "libc \<Rightarrow> nat \<Rightarrow> climate_info list \<Rightarrow> string \<Rightarrow> abort + climate_info list" where
  "absorb L n accs l =
     (case field 0 l of
        None \<Rightarrow> Inl (if accs = [] \<and> n = 0 then TooManyStates 0 else NullDeref)
      | Some c \<Rightarrow>
          (case code_index c accs of
             Some k \<Rightarrow>
               bind_abort (update_info L (accs ! k) (line_rest l)) (\<lambda>a'. Inr (accs[k := a']))
           | None \<Rightarrow>
               if length accs \<ge> n then Inl (TooManyStates (length accs))
               else if length c > 2 then Inl BufferOverflow
               else bind_abort (update_info L (new_info c) (line_rest l))
                      (\<lambda>a'. Inr (accs @ [a']))))"

text \<open>From the entries back to the array and \<open>currentStates\<close>.\<close>

definition lift_tbl :: "nat \<Rightarrow> abort + climate_info list \<Rightarrow> abort + (table \<times> nat)" where
  "lift_tbl n r = (case r of Inl e \<Rightarrow> Inl e | Inr accs \<Rightarrow> Inr (tbl n accs, length accs))"

text \<open>The loop on the entries alone.\<close>

fun absorb_all :: "libc \<Rightarrow> nat \<Rightarrow> climate_info list \<Rightarrow> string list \<Rightarrow> abort + climate_info list" where
  "absorb_all L n accs [] = Inr accs"
| "absorb_all L n accs (l # ls) =
     (case absorb L n accs l of Inl e \<Rightarrow> Inl e | Inr accs' \<Rightarrow> absorb_all L n accs' ls)"

text \<open>The messages of \<open>main\<close> for the paths that do not open, numbered from \<open>i\<close>.\<close>

fun open_errors :: "(string \<Rightarrow> string option) \<Rightarrow> nat \<Rightarrow> string list \<Rightarrow> err_line list" where
  "open_errors fs i [] = []"
| "open_errors fs i (p # ps) =
     (case fs p of None \<Rightarrow> [CouldNotOpen i] | Some fl \<Rightarrow> []) @ open_errors fs (Suc i) ps"

text \<open>
  The entry of the code \<open>c\<close> after the lines \<open>ls\<close>: the new entry, with the lines of
  that code folded in one after the other.
\<close>

definition step :: "libc \<Rightarrow> climate_info \<Rightarrow> string \<Rightarrow> climate_info" where
  "step L a l = (case update_info L a (line_rest l) of Inl e \<Rightarrow> a | Inr a' \<Rightarrow> a')"

definition fold_info :: "libc \<Rightarrow> string list \<Rightarrow> string \<Rightarrow> climate_info" where
  "fold_info L ls c = foldl (step L) (new_info c) (lines_of c ls)"

section \<open>Lemmas\<close>

subsection \<open>Aborts and tokens\<close>

lemma bind_abort_Inr [simp]: "bind_abort (Inr x) f = f x"
  by (simp add: bind_abort_def)

lemma bind_abort_Inl [simp]: "bind_abort (Inl e) f = Inl e"
  by (simp add: bind_abort_def)

lemma bind_abort_eq_Inr:
  "bind_abort m f = Inr y \<longleftrightarrow> (\<exists>x. m = Inr x \<and> f x = Inr y)"
  by (cases m) simp_all

lemma deref_simps [simp]: "deref None = Inl NullDeref" "deref (Some x) = Inr x"
  by (simp_all add: deref_def)

lemma deref_eq_Inr: "deref p = Inr x \<longleftrightarrow> p = Some x"
  by (cases p) simp_all

lemma strtok_None_rest: "fst (strtok s) = None \<Longrightarrow> snd (strtok s) = []"
  by (simp add: strtok_def Let_def split: if_splits)

lemma strtok_Nil [simp]: "strtok [] = (None, [])"
  by (simp add: strtok_def)

lemma strtok_n_Suc_alt: "strtok_n (Suc k) s = strtok (snd (strtok_n k s))"
  by (induction k arbitrary: s) simp_all

lemma strtok_n_None_Suc: "fst (strtok_n k s) = None \<Longrightarrow> fst (strtok_n (Suc k) s) = None"
proof -
  assume "fst (strtok_n k s) = None"
  then have "snd (strtok_n k s) = []"
    by (cases k) (simp_all add: strtok_None_rest strtok_n_Suc_alt del: strtok_n.simps(2))
  then show ?thesis
    by (simp add: strtok_n_Suc_alt del: strtok_n.simps(2))
qed

lemma strtok_n_None_mono:
  "fst (strtok_n k s) = None \<Longrightarrow> k \<le> m \<Longrightarrow> fst (strtok_n m s) = None"
  by (induction m) (auto simp: le_Suc_eq simp del: strtok_n.simps(2) dest: strtok_n_None_Suc)

lemma strtok_n_Some_mono:
  "fst (strtok_n m s) = Some t \<Longrightarrow> k \<le> m \<Longrightarrow> \<exists>u. fst (strtok_n k s) = Some u"
  by (cases "fst (strtok_n k s)") (auto dest: strtok_n_None_mono)

lemma strtok_chain:
  "strtok s = strtok_n 0 s"
  "strtok (snd (strtok_n 0 s)) = strtok_n 1 s"
  "strtok (snd (strtok_n 1 s)) = strtok_n 2 s"
  "strtok (snd (strtok_n 2 s)) = strtok_n 3 s"
  "strtok (snd (strtok_n 3 s)) = strtok_n 4 s"
  "strtok (snd (strtok_n 4 s)) = strtok_n 5 s"
  "strtok (snd (strtok_n 5 s)) = strtok_n 6 s"
  "strtok (snd (strtok_n 6 s)) = strtok_n 7 s"
  by (simp_all add: eval_nat_numeral strtok_n_Suc_alt del: strtok_n.simps(2))

lemma update_info_unfold:
  "update_info L a r =
     (case (fst (strtok_n 0 r), fst (strtok_n 1 r), fst (strtok_n 2 r), fst (strtok_n 3 r),
            fst (strtok_n 4 r), fst (strtok_n 5 r), fst (strtok_n 6 r), fst (strtok_n 7 r)) of
        (Some ts, Some g, Some h, Some s, Some c, Some l, Some p, Some t) \<Rightarrow>
           Inr (fold_fields L a ts g h s c l p t)
      | _ \<Rightarrow> Inl NullDeref)"
proof -
  obtain ts r2 where t0: "strtok r = (ts, r2)" by force
  obtain g r3 where t1: "strtok r2 = (g, r3)" by force
  obtain h r4 where t2: "strtok r3 = (h, r4)" by force
  obtain s r5 where t3: "strtok r4 = (s, r5)" by force
  obtain c r6 where t4: "strtok r5 = (c, r6)" by force
  obtain l r7 where t5: "strtok r6 = (l, r7)" by force
  obtain p r8 where t6: "strtok r7 = (p, r8)" by force
  obtain t r9 where t7: "strtok r8 = (t, r9)" by force
  have n: "strtok_n 0 r = (ts, r2)" "strtok_n 1 r = (g, r3)" "strtok_n 2 r = (h, r4)"
    "strtok_n 3 r = (s, r5)" "strtok_n 4 r = (c, r6)" "strtok_n 5 r = (l, r7)"
    "strtok_n 6 r = (p, r8)" "strtok_n 7 r = (t, r9)"
    using t0 t1 t2 t3 t4 t5 t6 t7 by (simp_all add: eval_nat_numeral)
  have ts: "ts = None \<Longrightarrow> g = None"
    using t0 t1 strtok_None_rest [of r] by simp
  show ?thesis
    unfolding update_info_def Let_def n fst_conv
    using ts by (simp add: t0 t1 t2 t3 t4 t5 t6 t7 fold_fields_def split: option.splits)
qed

lemma field_0: "field 0 l = fst (strtok (c_str l))"
  by (simp add: field_def)

lemma field_Suc: "field (Suc k) l = fst (strtok_n k (line_rest l))"
  by (simp add: field_def line_rest_def)

lemma field_None_mono: "field k l = None \<Longrightarrow> k \<le> m \<Longrightarrow> field m l = None"
  unfolding field_def by (rule strtok_n_None_mono)

lemma field_Some_mono: "field m l = Some t \<Longrightarrow> k \<le> m \<Longrightarrow> \<exists>u. field k l = Some u"
  unfolding field_def by (rule strtok_n_Some_mono)

lemma update_info_fields:
  "update_info L a (line_rest l) =
     (case (field 1 l, field 2 l, field 3 l, field 4 l, field 5 l, field 6 l, field 7 l,
            field 8 l) of
        (Some ts, Some g, Some h, Some s, Some c, Some li, Some p, Some t) \<Rightarrow>
           Inr (fold_fields L a ts g h s c li p t)
      | _ \<Rightarrow> Inl NullDeref)"
proof -
  have "field 1 l = fst (strtok_n 0 (line_rest l))" "field 2 l = fst (strtok_n 1 (line_rest l))"
    "field 3 l = fst (strtok_n 2 (line_rest l))" "field 4 l = fst (strtok_n 3 (line_rest l))"
    "field 5 l = fst (strtok_n 4 (line_rest l))" "field 6 l = fst (strtok_n 5 (line_rest l))"
    "field 7 l = fst (strtok_n 6 (line_rest l))" "field 8 l = fst (strtok_n 7 (line_rest l))"
    by (simp_all add: field_def line_rest_def eval_nat_numeral)
  then show ?thesis
    by (simp only: update_info_unfold)
qed

lemma length_tbl: "length accs \<le> n \<Longrightarrow> length (tbl n accs) = n"
  by (simp add: tbl_def)

lemma tbl_Nil: "tbl n [] = replicate n None"
  by (simp add: tbl_def)

lemma countStates_loop_tbl:
  "countStates_loop (map Some accs @ replicate m None) k = k + length accs"
  by (induction accs arbitrary: k) (simp_all, cases m, simp_all)

lemma countStates_tbl: "length accs \<le> n \<Longrightarrow> countStates (tbl n accs) n = length accs"
  by (simp add: countStates_def tbl_def countStates_loop_tbl)

lemma compareOrder_loop_Some:
  "compareOrder_loop (map Some accs) (Some c) k = Inr (map_option (\<lambda>i. i + k) (code_index c accs))"
  by (induction accs arbitrary: k) (simp_all add: option.map_comp comp_def)

lemma compareOrder_loop_None:
  "compareOrder_loop (map Some accs) None k = (if accs = [] then Inr None else Inl NullDeref)"
  by (cases accs) simp_all

lemma take_tbl: "take (length accs) (tbl n accs) = map Some accs"
  by (simp add: tbl_def)

lemma compareOrder_tbl_Some:
  "compareOrder (tbl n accs) (Some c) (length accs) = Inr (code_index c accs)"
  by (simp add: compareOrder_def take_tbl compareOrder_loop_Some option.map_ident)

lemma compareOrder_tbl_None:
  "compareOrder (tbl n accs) None (length accs) = (if accs = [] then Inr None else Inl NullDeref)"
  by (simp add: compareOrder_def take_tbl compareOrder_loop_None)

lemma code_index_Some:
  "code_index c accs = Some k \<Longrightarrow> k < length accs \<and> code (accs ! k) = c"
  by (induction accs arbitrary: k) (auto split: if_splits)

lemma code_index_None: "code_index c accs = None \<longleftrightarrow> c \<notin> code ` set accs"
  by (induction accs) auto

lemma tbl_nth: "k < length accs \<Longrightarrow> tbl n accs ! k = Some (accs ! k)"
  by (simp add: tbl_def nth_append)

lemma tbl_update: "k < length accs \<Longrightarrow> (tbl n accs)[k := Some a] = tbl n (accs[k := a])"
  by (simp add: tbl_def list_update_append map_update)

lemma tbl_snoc:
  "length accs < n \<Longrightarrow> (tbl n accs)[length accs := Some a] = tbl n (accs @ [a])"
proof -
  assume "length accs < n"
  then obtain m where m: "n - length accs = Suc m" "n - Suc (length accs) = m"
    by (cases "n - length accs") auto
  then show ?thesis
    by (simp add: tbl_def list_update_append)
qed

lemma tbl_snoc_nth: "tbl n (accs @ [a]) ! length accs = Some a"
  by (simp add: tbl_def nth_append)

lemma tbl_snoc_update: "(tbl n (accs @ [a]))[length accs := Some b] = tbl n (accs @ [b])"
  by (simp add: tbl_def list_update_append)

lemma process_line_tbl:
  assumes "length accs \<le> n"
  shows "process_line L n (tbl n accs, length accs) l = lift_tbl n (absorb L n accs l)"
proof (cases "field 0 l")
  case None
  then show ?thesis
    by (simp add: process_line_def absorb_def lift_tbl_def find_or_create_def field_0
        compareOrder_tbl_None strcpy_code_def case_prod_beta)
next
  case (Some c)
  note c = this
  show ?thesis
  proof (cases "code_index c accs")
    case None
    show ?thesis
    proof (cases "length accs \<ge> n \<or> length c > 2")
      case True
      then show ?thesis using c None
        by (auto simp: process_line_def absorb_def lift_tbl_def find_or_create_def field_0
            compareOrder_tbl_Some strcpy_code_def split: prod.splits)
    next
      case False
      then have lt: "length accs < n" by simp
      show ?thesis using c None False lt
        by (cases "update_info L (new_info c) (line_rest l)")
          (auto simp: process_line_def absorb_def lift_tbl_def find_or_create_def field_0
            compareOrder_tbl_Some strcpy_code_def tbl_snoc tbl_snoc_nth tbl_snoc_update
            line_rest_def split: prod.splits)
    qed
  next
    case (Some k)
    then have k: "k < length accs" by (simp add: code_index_Some)
    show ?thesis using c Some k
      by (cases "update_info L (accs ! k) (line_rest l)")
        (auto simp: process_line_def absorb_def lift_tbl_def find_or_create_def field_0
          compareOrder_tbl_Some tbl_nth tbl_update line_rest_def split: prod.splits)
  qed
qed

lemma absorb_length:
  "absorb L n accs l = Inr accs' \<Longrightarrow> length accs \<le> n \<Longrightarrow> length accs' \<le> n"
  by (auto simp: absorb_def bind_abort_eq_Inr split: option.splits if_splits)

lemma lift_tbl_simps [simp]:
  "lift_tbl n (Inl e) = Inl e" "lift_tbl n (Inr accs) = Inr (tbl n accs, length accs)"
  by (simp_all add: lift_tbl_def)

lemma process_lines_tbl:
  "length accs \<le> n \<Longrightarrow>
   process_lines L n (tbl n accs, length accs) ls = lift_tbl n (absorb_all L n accs ls)"
proof (induction ls arbitrary: accs)
  case Nil
  then show ?case by simp
next
  case (Cons l ls)
  show ?case
  proof (cases "absorb L n accs l")
    case (Inl e)
    then show ?thesis using Cons.prems by (simp add: process_line_tbl)
  next
    case (Inr accs')
    then have "length accs' \<le> n" using Cons.prems by (rule absorb_length)
    then show ?thesis using Inr Cons.prems Cons.IH [of accs'] by (simp add: process_line_tbl)
  qed
qed

lemma analyze_loop_lines:
  "analyze_loop L n sc fl = process_lines L n sc (file_lines fl)"
proof (induction L n sc fl rule: analyze_loop.induct)
  case (1 L n sc fl)
  show ?case
  proof (cases "fgets line_sz fl")
    case None
    then show ?thesis
      by (simp add: analyze_loop.simps [of L n sc fl] file_lines.simps [of fl])
  next
    case (Some lr)
    then obtain line rest where f: "fgets line_sz fl = Some (line, rest)"
      by (cases lr) simp
    have unf: "analyze_loop L n sc fl =
        (case process_line L n sc line of Inl e \<Rightarrow> Inl e
         | Inr sc' \<Rightarrow> analyze_loop L n sc' rest)"
      "file_lines fl = line # file_lines rest"
      using f by (simp_all add: analyze_loop.simps [of L n sc fl] file_lines.simps [of fl])
    show ?thesis
    proof (cases "process_line L n sc line")
      case (Inl e)
      then show ?thesis by (simp add: unf)
    next
      case (Inr sc')
      have "analyze_loop L n sc' rest = process_lines L n sc' (file_lines rest)"
        using f Inr by (rule "1.IH" [OF _ refl])
      then show ?thesis using Inr by (simp add: unf)
    qed
  qed
qed

lemma analyze_file_tbl:
  "length accs \<le> n \<Longrightarrow>
   analyze_file L fl (tbl n accs) n =
     (case absorb_all L n accs (file_lines fl) of Inl e \<Rightarrow> Inl e | Inr accs' \<Rightarrow> Inr (tbl n accs'))"
  by (simp add: analyze_file_def countStates_tbl analyze_loop_lines process_lines_tbl
      split: sum.splits)

lemma absorb_all_length:
  "absorb_all L n accs ls = Inr accs' \<Longrightarrow> length accs \<le> n \<Longrightarrow> length accs' \<le> n"
  by (induction ls arbitrary: accs) (auto split: sum.splits dest: absorb_length)

lemma absorb_all_append:
  "absorb_all L n accs (xs @ ys) =
     bind_abort (absorb_all L n accs xs) (\<lambda>accs'. absorb_all L n accs' ys)"
  by (induction xs arbitrary: accs) (simp_all split: sum.splits)

lemma input_lines_Cons:
  "input_lines fs (p # ps) =
     (case fs p of None \<Rightarrow> [] | Some fl \<Rightarrow> file_lines fl) @ input_lines fs ps"
  by (simp add: input_lines_def)

lemma input_lines_Nil [simp]: "input_lines fs [] = []"
  by (simp add: input_lines_def)

lemma main_loop_Inr:
  "length accs \<le> NUM_STATES \<Longrightarrow>
   main_loop L fs i paths (tbl NUM_STATES accs) err = Inr (states, err') \<longleftrightarrow>
     (\<exists>accs'. absorb_all L NUM_STATES accs (input_lines fs paths) = Inr accs' \<and>
        states = tbl NUM_STATES accs' \<and> err' = err @ open_errors fs i paths)"
proof (induction paths arbitrary: accs i err)
  case Nil
  then show ?case by (auto simp: tbl_def)
next
  case (Cons p ps)
  show ?case
  proof (cases "fs p")
    case None
    then show ?thesis using Cons.prems Cons.IH [of accs "Suc i" "err @ [CouldNotOpen i]"]
      by (simp add: input_lines_Cons)
  next
    case (Some fl)
    show ?thesis
    proof (cases "absorb_all L NUM_STATES accs (file_lines fl)")
      case (Inl e)
      then show ?thesis using Some Cons.prems
        by (simp add: input_lines_Cons analyze_file_tbl absorb_all_append)
    next
      case (Inr accs1)
      then have "length accs1 \<le> NUM_STATES" using Cons.prems by (rule absorb_all_length)
      then show ?thesis using Some Inr Cons.prems Cons.IH [of accs1 "Suc i" err]
        by (simp add: input_lines_Cons analyze_file_tbl absorb_all_append)
    qed
  qed
qed

lemma main_loop_Inl:
  "length accs \<le> NUM_STATES \<Longrightarrow>
   (\<exists>err'. main_loop L fs i paths (tbl NUM_STATES accs) err = Inl (e, err')) \<longleftrightarrow>
     absorb_all L NUM_STATES accs (input_lines fs paths) = Inl e"
proof (induction paths arbitrary: accs i err)
  case Nil
  then show ?case by simp
next
  case (Cons p ps)
  show ?case
  proof (cases "fs p")
    case None
    then show ?thesis using Cons.prems Cons.IH [of accs "Suc i" "err @ [CouldNotOpen i]"]
      by (simp add: input_lines_Cons)
  next
    case (Some fl)
    show ?thesis
    proof (cases "absorb_all L NUM_STATES accs (file_lines fl)")
      case (Inl e')
      then show ?thesis using Some Cons.prems
        by (auto simp: input_lines_Cons analyze_file_tbl absorb_all_append)
    next
      case (Inr accs1)
      then have "length accs1 \<le> NUM_STATES" using Cons.prems by (rule absorb_all_length)
      then show ?thesis using Some Inr Cons.prems Cons.IH [of accs1 "Suc i" err]
        by (simp add: input_lines_Cons analyze_file_tbl absorb_all_append)
    qed
  qed
qed

subsection \<open>first-seen order\<close>

lemma set_first_seen [simp]: "set (first_seen xs) = set xs"
  by (induction xs) auto

lemma distinct_first_seen [simp]: "distinct (first_seen xs)"
  by (induction xs) auto

lemma first_seen_snoc:
  "first_seen (xs @ [x]) = (if x \<in> set xs then first_seen xs else first_seen xs @ [x])"
proof (induction xs)
  case Nil
  then show ?case by simp
next
  case (Cons y ys)
  show ?case using Cons by auto
qed

lemma line_codes_snoc:
  "line_codes (ls @ [l]) = line_codes ls @ (case field 0 l of None \<Rightarrow> [] | Some c \<Rightarrow> [c])"
  by (simp add: line_codes_def map_filter_def split: option.splits)

lemma set_line_codes: "c \<in> set (line_codes ls) \<longleftrightarrow> (\<exists>l\<in>set ls. field 0 l = Some c)"
  by (induction ls) (auto simp: line_codes_def split: option.splits)

lemma lines_of_empty: "c \<notin> set (line_codes ls) \<Longrightarrow> lines_of c ls = []"
  by (auto simp: lines_of_def set_line_codes filter_empty_conv)

subsection \<open>The entry of a code, from its lines\<close>

lemma update_info_Inr_fields:
  assumes "update_info L a (line_rest l) = Inr a'"
  obtains ts g h s c li p t where
    "field 1 l = Some ts" "field 2 l = Some g" "field 3 l = Some h" "field 4 l = Some s"
    "field 5 l = Some c" "field 6 l = Some li" "field 7 l = Some p" "field 8 l = Some t"
    "a' = fold_fields L a ts g h s c li p t"
  using assms unfolding update_info_fields
  by (auto split: option.splits)

lemma update_info_complete:
  assumes "field 8 l = Some t"
  shows "\<exists>ts g h s c li p.
    field 1 l = Some ts \<and> field 2 l = Some g \<and> field 3 l = Some h \<and> field 4 l = Some s \<and>
    field 5 l = Some c \<and> field 6 l = Some li \<and> field 7 l = Some p \<and>
    (\<forall>L a. update_info L a (line_rest l) = Inr (fold_fields L a ts g h s c li p t))"
proof -
  obtain ts where 1: "field 1 l = Some ts" using field_Some_mono [OF assms, of 1] by auto
  obtain g where 2: "field 2 l = Some g" using field_Some_mono [OF assms, of 2] by auto
  obtain h where 3: "field 3 l = Some h" using field_Some_mono [OF assms, of 3] by auto
  obtain s where 4: "field 4 l = Some s" using field_Some_mono [OF assms, of 4] by auto
  obtain c where 5: "field 5 l = Some c" using field_Some_mono [OF assms, of 5] by auto
  obtain li where 6: "field 6 l = Some li" using field_Some_mono [OF assms, of 6] by auto
  obtain p where 7: "field 7 l = Some p" using field_Some_mono [OF assms, of 7] by auto
  have "update_info L a (line_rest l) = Inr (fold_fields L a ts g h s c li p t)" for L a
    unfolding update_info_fields 1 2 3 4 5 6 7 assms by simp
  with 1 2 3 4 5 6 7 show ?thesis by blast
qed

lemma update_info_Inr_complete: "update_info L a (line_rest l) = Inr a' \<Longrightarrow> field 8 l \<noteq> None"
  by (erule update_info_Inr_fields) simp

lemma update_info_incomplete: "field 8 l = None \<Longrightarrow> update_info L a (line_rest l) = Inl NullDeref"
  unfolding update_info_fields by (simp split: option.splits)

lemma fold_fields_code [simp]: "code (fold_fields L a ts g h s c li p t) = code a"
  by (simp add: fold_fields_def Let_def)

lemma fold_fields_num_records [simp]:
  "num_records (fold_fields L a ts g h s c li p t) = num_records a + 1"
  by (simp add: fold_fields_def Let_def)

lemma fold_fields_avgHumidity [simp]:
  "avgHumidity (fold_fields L a ts g h s c li p t) = avgHumidity a + atof L h"
  by (simp add: fold_fields_def Let_def)

lemma fold_fields_temperature [simp]:
  "temperature (fold_fields L a ts g h s c li p t) = temperature a + atof L t"
  by (simp add: fold_fields_def Let_def)

lemma step_code [simp]: "code (step L a l) = code a"
  by (cases "update_info L a (line_rest l)")
     (auto simp: step_def elim: update_info_Inr_fields)

lemma step_complete:
  assumes "field 8 l \<noteq> None"
  shows "num_records (step L a l) = num_records a + 1"
    and "avgHumidity (step L a l) = avgHumidity a + humidity_of L l"
    and "temperature (step L a l) = temperature a + temperature_of L l"
proof -
  from assms obtain t where t: "field 8 l = Some t" by auto
  then obtain ts g h s c li p where f: "field 3 l = Some h"
    and u: "\<And>a. update_info L a (line_rest l) = Inr (fold_fields L a ts g h s c li p t)"
    using update_info_complete [of l t] by blast
  show "num_records (step L a l) = num_records a + 1"
    "avgHumidity (step L a l) = avgHumidity a + humidity_of L l"
    "temperature (step L a l) = temperature a + temperature_of L l"
    by (simp_all add: step_def u humidity_of_def temperature_of_def f t)
qed

lemma foldl_step_code [simp]: "code (foldl (step L) a ls) = code a"
  by (induction ls arbitrary: a) simp_all

lemma fold_info_code [simp]: "code (fold_info L ls c) = c"
  by (simp add: fold_info_def new_info_def)

lemma lines_of_snoc:
  "lines_of c (ls @ [l]) = lines_of c ls @ (if field 0 l = Some c then [l] else [])"
  by (simp add: lines_of_def)

lemma fold_info_snoc_same:
  "field 0 l = Some c \<Longrightarrow> fold_info L (ls @ [l]) c = step L (fold_info L ls c) l"
  by (simp add: fold_info_def lines_of_snoc)

lemma fold_info_snoc_other:
  "field 0 l \<noteq> Some c \<Longrightarrow> fold_info L (ls @ [l]) c = fold_info L ls c"
  by (simp add: fold_info_def lines_of_snoc)

lemma fold_info_new: "c \<notin> set (line_codes ls) \<Longrightarrow> fold_info L ls c = new_info c"
  by (simp add: fold_info_def lines_of_empty)

lemma absorb_all_snoc:
  "absorb_all L n accs (ls @ [l]) = Inr accs' \<longleftrightarrow>
     (\<exists>accs0. absorb_all L n accs ls = Inr accs0 \<and> absorb L n accs0 l = Inr accs')"
  by (cases "absorb_all L n accs ls") (simp_all add: absorb_all_append split: sum.splits)

text \<open>The entries after a run: one for each code, in first-seen order.\<close>

lemma absorb_all_master:
  "absorb_all L n [] ls = Inr accs \<Longrightarrow>
     accs = map (fold_info L ls) (first_seen (line_codes ls)) \<and>
     (\<forall>l\<in>set ls. field 0 l \<noteq> None \<and> field 8 l \<noteq> None)"
proof (induction ls arbitrary: accs rule: rev_induct)
  case Nil
  then show ?case by (simp add: line_codes_def map_filter_def)
next
  case (snoc l ls)
  from snoc.prems obtain accs0 where
    a0: "absorb_all L n [] ls = Inr accs0" and a1: "absorb L n accs0 l = Inr accs"
    by (auto simp: absorb_all_snoc)
  let ?cs = "first_seen (line_codes ls)"
  from snoc.IH [OF a0] have accs0: "accs0 = map (fold_info L ls) ?cs"
    and ok: "\<forall>l\<in>set ls. field 0 l \<noteq> None \<and> field 8 l \<noteq> None" by simp_all
  from a1 obtain c where c: "field 0 l = Some c"
    by (auto simp: absorb_def split: option.splits)
  have codes0: "map code accs0 = ?cs"
    by (simp add: accs0 comp_def)
  show ?case
  proof (cases "code_index c accs0")
    case None
    then have new: "c \<notin> set (line_codes ls)"
      using codes0 by (metis code_index_None set_first_seen set_map)
    from a1 None c obtain a' where
      u: "update_info L (new_info c) (line_rest l) = Inr a'" and accs: "accs = accs0 @ [a']"
      by (auto simp: absorb_def bind_abort_eq_Inr split: if_splits)
    have l8: "field 8 l \<noteq> None" using u by (rule update_info_Inr_complete)
    have last: "fold_info L (ls @ [l]) c = a'"
      using c u new by (simp add: fold_info_snoc_same fold_info_new step_def)
    have others: "map (fold_info L (ls @ [l])) ?cs = map (fold_info L ls) ?cs"
      using new c by (intro map_cong refl fold_info_snoc_other) auto
    have "first_seen (line_codes (ls @ [l])) = ?cs @ [c]"
      using new c by (simp add: line_codes_snoc first_seen_snoc)
    then show ?thesis using accs accs0 last others ok c l8 by simp
  next
    case (Some k)
    then have k: "k < length accs0" "code (accs0 ! k) = c"
      by (simp_all add: code_index_Some)
    then have ck: "?cs ! k = c" "k < length ?cs"
      using codes0 by (metis nth_map, metis length_map)
    then have old: "c \<in> set (line_codes ls)"
      by (metis nth_mem set_first_seen)
    from a1 Some c obtain a' where
      u: "update_info L (accs0 ! k) (line_rest l) = Inr a'" and accs: "accs = accs0[k := a']"
      by (auto simp: absorb_def bind_abort_eq_Inr)
    have l8: "field 8 l \<noteq> None" using u by (rule update_info_Inr_complete)
    have fs: "first_seen (line_codes (ls @ [l])) = ?cs"
      using old c by (simp add: line_codes_snoc first_seen_snoc)
    have "map (fold_info L (ls @ [l])) ?cs = (map (fold_info L ls) ?cs)[k := a']"
    proof (rule nth_equalityI)
      show "length (map (fold_info L (ls @ [l])) ?cs) = length ((map (fold_info L ls) ?cs)[k := a'])"
        by simp
    next
      fix j assume "j < length (map (fold_info L (ls @ [l])) ?cs)"
      then have j: "j < length ?cs" by simp
      show "map (fold_info L (ls @ [l])) ?cs ! j = (map (fold_info L ls) ?cs)[k := a'] ! j"
      proof (cases "j = k")
        case True
        have "fold_info L (ls @ [l]) c = a'"
          using c u k(1) ck by (simp add: fold_info_snoc_same step_def accs0)
        then show ?thesis using True j ck by simp
      next
        case False
        then have "?cs ! j \<noteq> c"
          using j ck by (metis distinct_first_seen nth_eq_iff_index_eq)
        then have "fold_info L (ls @ [l]) (?cs ! j) = fold_info L ls (?cs ! j)"
          using c by (intro fold_info_snoc_other) auto
        then show ?thesis using False j by simp
      qed
    qed
    then show ?thesis using accs accs0 fs ok c l8 by simp
  qed
qed

subsection \<open>The run as a whole\<close>

lemma entries_tbl: "entries (tbl n accs) = accs"
  by (induction accs) (simp_all add: entries_def tbl_def map_filter_def)

lemma found_codes_tbl: "found_codes (map Some accs @ replicate m None) = map code accs"
proof (induction accs)
  case Nil
  show ?case by (induction m) simp_all
next
  case (Cons a accs)
  then show ?case by simp
qed

lemma state_blocks_tbl:
  "state_blocks (map Some accs @ replicate m None) = concat (map state_block accs)"
proof (induction accs)
  case Nil
  show ?case by (cases m) simp_all
next
  case (Cons a accs)
  then show ?case by simp
qed

lemma print_report_tbl:
  "length accs \<le> n \<Longrightarrow>
   print_report (tbl n accs) n = StatesFound (map code accs) # concat (map state_block accs)"
  by (simp add: print_report_def tbl_def found_codes_tbl state_blocks_tbl)

lemma main_loop_start:
  "main_loop L fs i paths (replicate NUM_STATES None) err = Inr (states, err') \<longleftrightarrow>
     (\<exists>accs. absorb_all L NUM_STATES [] (input_lines fs paths) = Inr accs \<and>
        states = tbl NUM_STATES accs \<and> err' = err @ open_errors fs i paths)"
  using main_loop_Inr [of "[]" L fs i paths err states err'] by (simp add: tbl_Nil)

lemma main_loop_start_Inl:
  "(\<exists>err'. main_loop L fs i paths (replicate NUM_STATES None) err = Inl (e, err')) \<longleftrightarrow>
     absorb_all L NUM_STATES [] (input_lines fs paths) = Inl e"
  using main_loop_Inl [of "[]" L fs i paths err e] by (simp add: tbl_Nil)

lemma main_completes:
  assumes "2 \<le> length argv"
    and "absorb_all L NUM_STATES [] (input_lines fs (tl argv)) = Inr accs"
  shows "main L fs argv =
    \<lparr>exit_status = ExitStatus 0, stderr = open_errors fs 1 (tl argv),
     stdout = print_report (tbl NUM_STATES accs) NUM_STATES\<rparr>"
proof -
  have "main_loop L fs 1 (tl argv) (replicate NUM_STATES None) [] =
      Inr (tbl NUM_STATES accs, open_errors fs 1 (tl argv))"
    using assms(2) by (simp add: main_loop_start)
  then show ?thesis using assms(1) by (simp add: main_def)
qed

lemma main_aborts:
  assumes "2 \<le> length argv"
    and "absorb_all L NUM_STATES [] (input_lines fs (tl argv)) = Inl e"
  shows "\<exists>err. main L fs argv =
    (case e of
       TooManyStates k \<Rightarrow>
         \<lparr>exit_status = ExitStatus 1, stderr = err @ [TooManyStatesMsg k], stdout = []\<rparr>
     | _ \<Rightarrow> \<lparr>exit_status = Crashed e, stderr = err, stdout = []\<rparr>)"
proof -
  obtain err where "main_loop L fs 1 (tl argv) (replicate NUM_STATES None) [] = Inl (e, err)"
    using assms(2) main_loop_start_Inl [of L fs 1 "tl argv" "[]" e] by blast
  then show ?thesis using assms(1) by (cases e) (simp_all add: main_def)
qed

lemma main_status_0:
  "exit_status (main L fs argv) = ExitStatus 0 \<longleftrightarrow>
     2 \<le> length argv \<and> (\<exists>accs. absorb_all L NUM_STATES [] (input_lines fs (tl argv)) = Inr accs)"
proof (cases "2 \<le> length argv")
  case False
  then show ?thesis by (simp add: main_def)
next
  case True
  show ?thesis
  proof (cases "absorb_all L NUM_STATES [] (input_lines fs (tl argv))")
    case (Inl e)
    from main_aborts [OF True Inl] obtain err where "main L fs argv =
      (case e of
         TooManyStates k \<Rightarrow>
           \<lparr>exit_status = ExitStatus 1, stderr = err @ [TooManyStatesMsg k], stdout = []\<rparr>
       | _ \<Rightarrow> \<lparr>exit_status = Crashed e, stderr = err, stdout = []\<rparr>)" ..
    then show ?thesis using True Inl by (cases e) simp_all
  next
    case (Inr accs)
    then show ?thesis using True main_completes [OF True Inr] by simp
  qed
qed

subsection \<open>What an entry holds\<close>

lemma foldl_step_sums:
  assumes "\<forall>l\<in>set ls. field 8 l \<noteq> None"
  shows "num_records (foldl (step L) a ls) = num_records a + of_nat (length ls)"
    and "avgHumidity (foldl (step L) a ls) = avgHumidity a + sum_list (map (humidity_of L) ls)"
    and "temperature (foldl (step L) a ls) = temperature a + sum_list (map (temperature_of L) ls)"
  using assms by (induction ls arbitrary: a) (simp_all add: step_complete)

lemma fold_info_sums:
  assumes "\<forall>l\<in>set ls. field 8 l \<noteq> None"
  shows "num_records (fold_info L ls c) = of_nat (length (lines_of c ls))"
    and "avgHumidity (fold_info L ls c) = sum_list (map (humidity_of L) (lines_of c ls))"
    and "temperature (fold_info L ls c) = sum_list (map (temperature_of L) (lines_of c ls))"
proof -
  have "\<forall>l\<in>set (lines_of c ls). field 8 l \<noteq> None"
    using assms by (simp add: lines_of_def)
  then show "num_records (fold_info L ls c) = of_nat (length (lines_of c ls))"
    "avgHumidity (fold_info L ls c) = sum_list (map (humidity_of L) (lines_of c ls))"
    "temperature (fold_info L ls c) = sum_list (map (temperature_of L) (lines_of c ls))"
    by (simp_all add: fold_info_def foldl_step_sums new_info_def calloc_info_def)
qed

lemma lines_of_nonempty: "c \<in> set (line_codes ls) \<Longrightarrow> lines_of c ls \<noteq> []"
  by (auto simp: set_line_codes lines_of_def filter_empty_conv)

lemma count_lines_sum:
  "distinct cs \<Longrightarrow> set (line_codes ls) \<subseteq> set cs \<Longrightarrow> \<forall>l\<in>set ls. field 0 l \<noteq> None \<Longrightarrow>
   (\<Sum>c\<leftarrow>cs. length (lines_of c ls)) = length ls"
proof (induction ls)
  case Nil
  then show ?case by (simp add: lines_of_def)
next
  case (Cons l ls)
  from Cons.prems obtain c where c: "field 0 l = Some c" by auto
  then have cin: "c \<in> set cs" using Cons.prems(2) by (auto simp: set_line_codes)
  have sub: "set (line_codes ls) \<subseteq> set cs"
    using Cons.prems(2) by (auto simp: set_line_codes)
  have "(\<Sum>c'\<leftarrow>cs. length (lines_of c' (l # ls))) =
        (\<Sum>c'\<leftarrow>cs. (if c' = c then 1 else 0) + length (lines_of c' ls))"
    using c by (intro arg_cong [where f = sum_list] map_cong refl) (auto simp: lines_of_def)
  also have "\<dots> = (\<Sum>c'\<leftarrow>cs. if c' = c then 1 else 0) + (\<Sum>c'\<leftarrow>cs. length (lines_of c' ls))"
    by (simp add: sum_list_addf)
  also have "(\<Sum>c'\<leftarrow>cs. if c' = c then 1 else 0) = (1::nat)"
    using cin Cons.prems(1) by (induction cs) auto
  finally show ?case using Cons.IH [OF Cons.prems(1) sub] Cons.prems(3) by simp
qed

subsection \<open>Progress\<close>

lemma absorb_all_progress:
  assumes "\<forall>l\<in>set ls. field 8 l \<noteq> None \<and> (\<exists>c. field 0 l = Some c \<and> length c \<le> 2)"
    and "length (first_seen (line_codes ls)) \<le> n"
  shows "\<exists>accs. absorb_all L n [] ls = Inr accs"
  using assms
proof (induction ls rule: rev_induct)
  case Nil
  then show ?case by simp
next
  case (snoc l ls)
  from snoc.prems(1) obtain c t where c: "field 0 l = Some c" "length c \<le> 2"
    and t: "field 8 l = Some t" by auto
  have len: "length (first_seen (line_codes ls)) \<le> length (first_seen (line_codes (ls @ [l])))"
    by (simp add: line_codes_snoc first_seen_snoc c)
  then obtain accs0 where a0: "absorb_all L n [] ls = Inr accs0"
    using snoc by force
  from absorb_all_master [OF a0]
  have accs0: "accs0 = map (fold_info L ls) (first_seen (line_codes ls))" by simp
  then have codes0: "code ` set accs0 = set (line_codes ls)" by (auto simp: image_iff)
  obtain ts g h s cl li p where
    u: "\<And>a. update_info L a (line_rest l) = Inr (fold_fields L a ts g h s cl li p t)"
    using update_info_complete [OF t] by blast
  have "\<exists>accs. absorb L n accs0 l = Inr accs"
  proof (cases "code_index c accs0")
    case None
    then have "c \<notin> set (line_codes ls)" using codes0 by (simp add: code_index_None)
    then have "length (first_seen (line_codes (ls @ [l]))) = Suc (length accs0)"
      by (simp add: line_codes_snoc first_seen_snoc c accs0)
    then have "length accs0 < n" using snoc.prems(2) by simp
    then show ?thesis using None c by (simp add: absorb_def u)
  next
    case (Some k)
    then show ?thesis using c by (simp add: absorb_def u)
  qed
  then show ?case using a0 by (simp add: absorb_all_snoc)
qed

subsection \<open>The entries at the end of a run\<close>

lemma run_entries:
  assumes "main_loop L fs i paths (replicate NUM_STATES None) err = Inr (states, err')"
  shows "entries states =
      map (fold_info L (input_lines fs paths)) (first_seen (line_codes (input_lines fs paths)))"
    and "states = tbl NUM_STATES (entries states)"
    and "length (entries states) \<le> NUM_STATES"
    and "\<forall>l\<in>set (input_lines fs paths). field 0 l \<noteq> None \<and> field 8 l \<noteq> None"
    and "err' = err @ open_errors fs i paths"
proof -
  let ?ls = "input_lines fs paths"
  from assms obtain accs where a: "absorb_all L NUM_STATES [] ?ls = Inr accs"
    and s: "states = tbl NUM_STATES accs" and e: "err' = err @ open_errors fs i paths"
    by (auto simp: main_loop_start)
  have len: "length accs \<le> NUM_STATES"
    using absorb_all_length [OF a] by simp
  from absorb_all_master [OF a]
  have m: "accs = map (fold_info L ?ls) (first_seen (line_codes ?ls))"
    and ok: "\<forall>l\<in>set ?ls. field 0 l \<noteq> None \<and> field 8 l \<noteq> None" by simp_all
  show "entries states = map (fold_info L ?ls) (first_seen (line_codes ?ls))"
    using s m by (simp add: entries_tbl)
  show "states = tbl NUM_STATES (entries states)" using s by (simp add: entries_tbl)
  show "length (entries states) \<le> NUM_STATES" using s len by (simp add: entries_tbl)
  show "\<forall>l\<in>set ?ls. field 0 l \<noteq> None \<and> field 8 l \<noteq> None" by (rule ok)
  show "err' = err @ open_errors fs i paths" by (rule e)
qed

lemma state_block_headers:
  "[c. StateHeader c \<leftarrow> concat (map state_block accs)] = map code accs"
  by (induction accs) (simp_all add: state_block_def Let_def)

lemma state_block_counts:
  "[k. NumberOfRecords k \<leftarrow> concat (map state_block accs)] = map num_records accs"
  by (induction accs) (simp_all add: state_block_def Let_def)

lemma state_block_humidity:
  "[q. AverageHumidity q \<leftarrow> concat (map state_block accs)] =
     map (\<lambda>a. ddiv (avgHumidity a) (num_records a)) accs"
  by (induction accs) (simp_all add: state_block_def Let_def)

lemma state_block_temperature:
  "[q. AverageTemperature q \<leftarrow> concat (map state_block accs)] =
     map (\<lambda>a. map_option (\<lambda>m. m * 1.8 - 459.67) (ddiv (temperature a) (num_records a))) accs"
  by (induction accs) (simp_all add: state_block_def Let_def fahrenheit_def [abs_def])

subsection \<open>The example run\<close>

lemma example_run:
  "main_loop libc_dec example_fs 1 (tl example_argv) (replicate NUM_STATES None) [] =
     Inr (example_states, [CouldNotOpen 2])"
  by code_simp

lemma example_entries:
  "map code (entries example_states) = [''WA'', ''TN'']"
  "map num_records (entries example_states) = [2, 1]"
  "map avgHumidity (entries example_states) = [124, 50]"
  "map temperature (entries example_states) = [580, 290]"
  by code_simp+

lemma example_lines:
  "length (input_lines example_fs (tl example_argv)) = 3"
  "line_codes (input_lines example_fs (tl example_argv)) = [''WA'', ''TN'', ''WA'']"
  "length (lines_of ''WA'' (input_lines example_fs (tl example_argv))) = 2"
  "length (lines_of ''TN'' (input_lines example_fs (tl example_argv))) = 1"
  by code_simp+

lemma set_via_map: "map f xs = ys \<Longrightarrow> (\<forall>x\<in>set xs. P (f x)) \<longleftrightarrow> (\<forall>y\<in>set ys. P y)"
  by auto

subsection \<open>Files of short lines\<close>

lemma fgets_split_line:
  "newline \<notin> set body \<Longrightarrow> length body < n \<Longrightarrow>
   fgets_split n (body @ newline # rest) = (body @ [newline], rest)"
proof (induction body arbitrary: n)
  case Nil
  then show ?case by (cases n) simp_all
next
  case (Cons c body)
  then show ?case by (cases n) auto
qed

lemma file_lines_Nil [simp]: "file_lines [] = []"
  by (simp add: file_lines.simps [of "[]"] fgets_def)

lemma file_lines_line:
  assumes "newline \<notin> set body" and "length body < line_sz - 1"
  shows "file_lines (body @ newline # rest) = (body @ [newline]) # file_lines rest"
  using fgets_split_line [OF assms, of rest]
  by (simp add: file_lines.simps [of "body @ newline # rest"] fgets_def)

lemma file_lines_replicate:
  assumes "newline \<notin> set body" and "length body < line_sz - 1"
  shows "file_lines (concat (replicate k (body @ [newline]))) = replicate k (body @ [newline])"
  using file_lines_line [OF assms] by (induction k) simp_all

lemma length_first_seen: "length (first_seen xs) = card (set xs)"
  using distinct_card [of "first_seen xs"] by simp

lemma line_codes_replicate:
  "field 0 l = Some c \<Longrightarrow> line_codes (replicate k l) = replicate k c"
  by (induction k) (simp_all add: line_codes_def)

lemma first_seen_replicate: "0 < k \<Longrightarrow> first_seen (replicate k c) = [c]"
proof (induction k)
  case 0
  then show ?case by simp
next
  case (Suc k)
  then show ?case by (cases k) simp_all
qed

lemma lines_of_replicate: "field 0 l = Some c \<Longrightarrow> lines_of c (replicate k l) = replicate k l"
  by (simp add: lines_of_def)

text \<open>A run over \<open>k\<close> copies of one complete line: one entry, with the count \<open>k\<close>.\<close>

lemma same_line_run:
  assumes c: "field 0 l = Some c" "length c \<le> 2" and t: "field 8 l \<noteq> None" and k: "0 < k"
  shows "\<exists>a. absorb_all L NUM_STATES [] (replicate k l) = Inr [a] \<and> code a = c \<and>
    num_records a = of_nat k \<and> avgHumidity a = real k * humidity_of L l \<and>
    temperature a = real k * temperature_of L l"
proof -
  let ?ls = "replicate k l"
  have codes: "first_seen (line_codes ?ls) = [c]"
    using c(1) k by (simp add: line_codes_replicate first_seen_replicate)
  have "\<exists>accs. absorb_all L NUM_STATES [] ?ls = Inr accs"
    using c t by (intro absorb_all_progress) (auto simp: codes NUM_STATES_def)
  then obtain accs where a: "absorb_all L NUM_STATES [] ?ls = Inr accs" ..
  from absorb_all_master [OF a] have accs: "accs = [fold_info L ?ls c]"
    by (simp add: codes)
  have ok: "\<forall>l\<in>set ?ls. field 8 l \<noteq> None" using t by simp
  show ?thesis
    using a accs fold_info_sums [OF ok, of L c]
    by (simp add: lines_of_replicate c(1) sum_list_replicate)
qed

lemma scenario_line_shape:
  "scenario_line =
     tdv_fields [''TN'', ''1000'', ''geo'', ''50.0'', ''0'', ''60.0'', ''1'', ''1000.0'', ''290.0'']
     @ [newline]"
  "newline \<notin> set (tdv_fields [''TN'', ''1000'', ''geo'', ''50.0'', ''0'', ''60.0'', ''1'',
     ''1000.0'', ''290.0''])"
  "length (tdv_fields [''TN'', ''1000'', ''geo'', ''50.0'', ''0'', ''60.0'', ''1'',
     ''1000.0'', ''290.0'']) < line_sz - 1"
  "field 0 scenario_line = Some ''TN''"
  "field 8 scenario_line = Some ''290.0''"
  "humidity_of libc_dec scenario_line = 50"
  by (simp add: scenario_line_def tdv_line_def, code_simp+)

lemma big_file_lines: "file_lines big_file = replicate (2 ^ 32) scenario_line"
  unfolding big_file_def scenario_line_shape(1)
  by (rule file_lines_replicate [OF scenario_line_shape(2,3)])

lemma big_file_run:
  "\<exists>a. absorb_all libc_dec NUM_STATES [] (file_lines big_file) = Inr [a] \<and>
     code a = ''TN'' \<and> num_records a = 0"
proof -
  have "\<exists>a. absorb_all libc_dec NUM_STATES [] (replicate (2 ^ 32) scenario_line) = Inr [a] \<and>
      code a = ''TN'' \<and> num_records a = of_nat (2 ^ 32) \<and>
      avgHumidity a = real (2 ^ 32) * humidity_of libc_dec scenario_line \<and>
      temperature a = real (2 ^ 32) * temperature_of libc_dec scenario_line"
    by (rule same_line_run) (simp_all add: scenario_line_shape(4,5))
  then obtain a where
    "absorb_all libc_dec NUM_STATES [] (replicate (2 ^ 32) scenario_line) = Inr [a]"
    "code a = ''TN''" "num_records a = of_nat (2 ^ 32)"
    by blast
  then show ?thesis by (simp add: big_file_lines)
qed

subsection \<open>Aborted runs and skipped files\<close>

lemma main_not_completed:
  assumes "2 \<le> length argv" and "exit_status (main L fs argv) \<noteq> ExitStatus 0"
  shows "stdout (main L fs argv) = []"
proof (cases "absorb_all L NUM_STATES [] (input_lines fs (tl argv))")
  case (Inl e)
  from main_aborts [OF assms(1) Inl] show ?thesis by (cases e) auto
next
  case (Inr accs)
  then show ?thesis using assms by (simp add: main_status_0)
qed

lemma opened_Cons:
  "opened fs (p # ps) = (case fs p of None \<Rightarrow> opened fs ps | Some fl \<Rightarrow> fl # opened fs ps)"
  by (simp add: opened_def split: option.splits)

lemma opened_Nil [simp]: "opened fs [] = []"
  by (simp add: opened_def)

lemma main_loop_files:
  "(case main_loop L fs i paths states err of
      Inl (e, err') \<Rightarrow> analyze_files L (opened fs paths) states = Inl e
    | Inr (states', err') \<Rightarrow>
        analyze_files L (opened fs paths) states = Inr states' \<and>
        err' = err @ open_errors fs i paths)"
proof (induction paths arbitrary: i states err)
  case Nil
  then show ?case by simp
next
  case (Cons p ps)
  show ?case
  proof (cases "fs p")
    case None
    then show ?thesis using Cons [where i = "Suc i" and states = states and err = "err @ [CouldNotOpen i]"]
      by (simp add: opened_Cons split: sum.splits prod.splits)
  next
    case (Some fl)
    show ?thesis
    proof (cases "analyze_file L fl states NUM_STATES")
      case (Inl e)
      then show ?thesis using Some by (simp add: opened_Cons)
    next
      case (Inr states1)
      then show ?thesis using Some Cons [where i = "Suc i" and states = states1 and err = err]
        by (simp add: opened_Cons split: sum.splits prod.splits)
    qed
  qed
qed

lemma open_errors_indices:
  "open_errors fs i paths =
     [CouldNotOpen k. k \<leftarrow> [i..<i + length paths], fs (paths ! (k - i)) = None]"
proof (induction paths arbitrary: i)
  case Nil
  then show ?case by simp
next
  case (Cons p ps)
  let ?f = "\<lambda>k. if fs ((p # ps) ! (k - i)) = None then [CouldNotOpen k] else []"
  have u: "[i..<i + length (p # ps)] = i # [Suc i..<Suc i + length ps]"
    by (subst upt_rec) simp
  have "concat (map ?f [Suc i..<Suc i + length ps]) =
        [CouldNotOpen k. k \<leftarrow> [Suc i..<Suc i + length ps], fs (ps ! (k - Suc i)) = None]"
    by (intro arg_cong [where f = concat] map_cong refl) (auto simp: nth_Cons' Suc_diff_le)
  then have rest: "concat (map ?f [Suc i..<Suc i + length ps]) = open_errors fs (Suc i) ps"
    by (simp only: Cons [of "Suc i"])
  have "[CouldNotOpen k. k \<leftarrow> [i..<i + length (p # ps)], fs ((p # ps) ! (k - i)) = None] =
        ?f i @ concat (map ?f [Suc i..<Suc i + length ps])"
    by (simp only: u list.map concat.simps)
  also have "\<dots> = open_errors fs i (p # ps)"
    unfolding rest by (simp split: option.splits)
  finally show ?case by simp
qed

lemma open_errors_argv:
  assumes "2 \<le> length argv"
  shows "open_errors fs 1 (tl argv) =
     [CouldNotOpen k. k \<leftarrow> [1..<length argv], fs (argv ! k) = None]"
proof -
  have len: "1 + length (tl argv) = length argv" using assms by simp
  have "[CouldNotOpen k. k \<leftarrow> [1..<length argv], fs (tl argv ! (k - 1)) = None] =
        [CouldNotOpen k. k \<leftarrow> [1..<length argv], fs (argv ! k) = None]"
    using assms by (intro arg_cong [where f = concat] map_cong refl) (auto simp: nth_tl)
  then show ?thesis unfolding open_errors_indices len .
qed

subsection \<open>The capacity abort\<close>

lemma file_lines_short_enough:
  "list_all short_enough ls \<Longrightarrow> file_lines (concat ls) = ls"
proof (induction ls)
  case Nil
  then show ?case by simp
next
  case (Cons l ls)
  then have l: "l \<noteq> []" "last l = newline" "newline \<notin> set (butlast l)" "length l < line_sz"
    by (simp_all add: short_enough_def)
  have "length (butlast l) < line_sz - 1"
    using l(1,4) by (cases l) (auto simp: line_sz_def)
  from file_lines_line [OF l(3) this, of "concat ls"]
  have "file_lines ((butlast l @ [last l]) @ concat ls) = (butlast l @ [last l]) # file_lines (concat ls)"
    by (simp add: l(2))
  then show ?case using Cons l(1) by simp
qed

lemma absorb_all_Inl_split:
  "absorb_all L n accs ls = Inl e \<Longrightarrow>
   \<exists>pre l post accs0. ls = pre @ l # post \<and> absorb_all L n accs pre = Inr accs0 \<and>
      absorb L n accs0 l = Inl e"
proof (induction ls arbitrary: accs)
  case Nil
  then show ?case by simp
next
  case (Cons x xs)
  show ?case
  proof (cases "absorb L n accs x")
    case (Inl e')
    then have "e' = e" using Cons.prems by simp
    then have "x # xs = [] @ x # xs \<and> absorb_all L n accs [] = Inr accs \<and> absorb L n accs x = Inl e"
      using Inl by simp
    then show ?thesis by blast
  next
    case (Inr accs1)
    then have "absorb_all L n accs1 xs = Inl e" using Cons.prems by simp
    from Cons.IH [OF this] obtain pre l post accs0 where
      "xs = pre @ l # post" "absorb_all L n accs1 pre = Inr accs0" "absorb L n accs0 l = Inl e"
      by blast
    then have "x # xs = (x # pre) @ l # post \<and> absorb_all L n accs (x # pre) = Inr accs0 \<and>
        absorb L n accs0 l = Inl e"
      using Inr by simp
    then show ?thesis by blast
  qed
qed

lemma absorb_TooManyStates:
  assumes "absorb L n accs l = Inl (TooManyStates k)" and "0 < n"
  shows "\<exists>c. field 0 l = Some c \<and> c \<notin> code ` set accs \<and> n \<le> length accs \<and> k = length accs"
proof -
  have nd: "update_info L a r \<noteq> Inl (TooManyStates k)" for a r
    unfolding update_info_unfold by (simp split: option.splits)
  from assms obtain c where c: "field 0 l = Some c"
    by (auto simp: absorb_def split: option.splits if_splits)
  show ?thesis
  proof (cases "code_index c accs")
    case None
    have eq: "absorb L n accs l =
        (if n \<le> length accs then Inl (TooManyStates (length accs))
         else if 2 < length c then Inl BufferOverflow
         else bind_abort (update_info L (new_info c) (line_rest l)) (\<lambda>a'. Inr (accs @ [a'])))"
      using c None by (simp add: absorb_def)
    have notin: "c \<notin> code ` set accs" using None by (simp add: code_index_None)
    show ?thesis using assms(1) nd [of "new_info c" "line_rest l"] notin c unfolding eq
      by (cases "update_info L (new_info c) (line_rest l)") (auto split: if_splits)
  next
    case (Some j)
    have eq: "absorb L n accs l =
        bind_abort (update_info L (accs ! j) (line_rest l)) (\<lambda>a'. Inr (accs[j := a']))"
      using c Some by (simp add: absorb_def)
    show ?thesis using assms(1) nd [of "accs ! j" "line_rest l"] unfolding eq
      by (cases "update_info L (accs ! j) (line_rest l)") auto
  qed
qed

lemma absorb_all_TooManyStates:
  assumes "absorb_all L n [] ls = Inl (TooManyStates k)" and "0 < n"
  shows "n < card (set (line_codes ls))"
proof -
  from absorb_all_Inl_split [OF assms(1)] obtain pre l post accs0 where
    ls: "ls = pre @ l # post" and a0: "absorb_all L n [] pre = Inr accs0"
    and a1: "absorb L n accs0 l = Inl (TooManyStates k)" by blast
  from absorb_TooManyStates [OF a1 assms(2)] obtain c where
    c: "field 0 l = Some c" "c \<notin> code ` set accs0" "n \<le> length accs0" by blast
  from absorb_all_master [OF a0]
  have accs0: "accs0 = map (fold_info L pre) (first_seen (line_codes pre))" by simp
  then have codes: "code ` set accs0 = set (line_codes pre)" by (auto simp: image_iff)
  have "length accs0 = card (set (line_codes pre))"
    by (simp add: accs0 length_first_seen)
  then have "n < card (insert c (set (line_codes pre)))"
    using c codes by simp
  also have "\<dots> \<le> card (set (line_codes ls))"
    by (intro card_mono) (auto simp: ls set_line_codes c(1))
  finally show ?thesis .
qed

lemma open_errors_only: "TooManyStatesMsg k \<notin> set (open_errors fs i paths)"
  by (induction paths arbitrary: i) (auto split: option.splits)

lemma main_loop_err_Inl:
  "main_loop L fs i paths states err = Inl (e, err') \<Longrightarrow>
   TooManyStatesMsg k \<in> set err' \<Longrightarrow> TooManyStatesMsg k \<in> set err"
proof (induction paths arbitrary: i states err)
  case Nil
  then show ?case by simp
next
  case (Cons p ps)
  show ?case
  proof (cases "fs p")
    case None
    then have "TooManyStatesMsg k \<in> set (err @ [CouldNotOpen i])"
      using Cons.prems Cons.IH [where i = "Suc i" and states = states
          and err = "err @ [CouldNotOpen i]"] by simp
    then show ?thesis by simp
  next
    case (Some fl)
    then show ?thesis
      using Cons.prems Cons.IH [where i = "Suc i" and err = err]
      by (auto split: sum.splits)
  qed
qed

lemma main_capacity_message:
  assumes "TooManyStatesMsg k \<in> set (stderr (main L fs argv))"
  shows "absorb_all L NUM_STATES [] (input_lines fs (tl argv)) = Inl (TooManyStates k)"
proof -
  have argv: "2 \<le> length argv"
    using assms by (cases "2 \<le> length argv") (simp_all add: main_def)
  show ?thesis
  proof (cases "main_loop L fs 1 (tl argv) (replicate NUM_STATES None) []")
    case (Inl a)
    obtain e err' where a: "a = (e, err')" by (cases a)
    have no: "TooManyStatesMsg k \<notin> set err'"
      using main_loop_err_Inl [where L = L and fs = fs and i = 1 and paths = "tl argv"
          and states = "replicate NUM_STATES None" and err = "[]" and e = e and err' = err'
          and k = k] Inl a
      by auto
    have "e = TooManyStates k"
      using assms argv Inl a no by (cases e) (simp_all add: main_def)
    then show ?thesis
      using main_loop_start_Inl [where e = e and L = L and fs = fs and i = 1 and paths = "tl argv"
          and err = "[]"] Inl a by auto
  next
    case (Inr b)
    obtain states err' where b: "b = (states, err')" by (cases b)
    then have "err' = [] @ open_errors fs 1 (tl argv)"
      using Inr by (auto simp: main_loop_start)
    then show ?thesis using assms argv Inr b open_errors_only [where k = k and fs = fs and i = 1 and paths = "tl argv"]
      by (simp add: main_def)
  qed
qed

lemma crowded_facts:
  "list_all short_enough (map state_line [0..<51])"
  "list_all well_formed (map state_line [0..<50])"
  "line_codes (map state_line [0..<50]) = map state_code [0..<50]"
  "card (set (map state_code [0..<50])) = NUM_STATES"
  "field 0 (state_line 50) = Some ''BY''"
  "''BY'' \<notin> set (map state_code [0..<50])"
  "[0..<51] = [0..<50] @ [50]"
  by code_simp+

subsection \<open>Lines longer than the buffer\<close>

lemma fgets_split_full:
  "newline \<notin> set body \<Longrightarrow> n \<le> length body \<Longrightarrow>
   fgets_split n (body @ rest) = (take n body, drop n body @ rest)"
proof (induction n arbitrary: body)
  case 0
  then show ?case by simp
next
  case (Suc n)
  then show ?case by (cases body) auto
qed

lemma fgets_split_physical_line:
  assumes "newline \<notin> set b"
  shows "fgets_split n (b @ newline # rest) = (take n (b @ [newline]), drop n (b @ [newline]) @ rest)"
proof (cases "length b < n")
  case True
  then show ?thesis using fgets_split_line [OF assms True, of rest] by simp
next
  case False
  then show ?thesis using fgets_split_full [OF assms, of n "newline # rest"] by simp
qed

lemma fgets_physical_line:
  assumes "newline \<notin> set b"
  shows "fgets line_sz (b @ newline # rest) =
     Some (take 99 (b @ [newline]), drop 99 (b @ [newline]) @ rest)"
  using fgets_split_physical_line [OF assms, of 99 rest] by (simp add: fgets_def line_sz_def)

lemma fgets_split_bound: "length (fst (fgets_split n cs)) \<le> n"
  by (induction n cs rule: fgets_split.induct) (auto split: prod.splits)

lemma fgets_split_nonempty: "0 < n \<Longrightarrow> cs \<noteq> [] \<Longrightarrow> fst (fgets_split n cs) \<noteq> []"
  by (cases n; cases cs) (auto split: prod.splits)

lemma file_lines_bound: "b \<in> set (file_lines fl) \<Longrightarrow> b \<noteq> [] \<and> length b \<le> 99"
proof (induction fl arbitrary: b rule: file_lines.induct)
  case (1 fl)
  show ?case
  proof (cases "fgets line_sz fl")
    case None
    then show ?thesis using "1.prems" by (simp add: file_lines.simps [of fl])
  next
    case (Some lr)
    then obtain line rest where f: "fgets line_sz fl = Some (line, rest)" by (cases lr) simp
    then have fl: "fl \<noteq> []" "fgets_split 99 fl = (line, rest)"
      by (auto simp: fgets_def line_sz_def split: if_splits)
    have line: "line \<noteq> [] \<and> length line \<le> 99"
      using fgets_split_bound [of 99 fl] fgets_split_nonempty [of 99 fl] fl by simp
    have "b = line \<or> b \<in> set (file_lines rest)"
      using "1.prems" f by (simp add: file_lines.simps [of fl])
    then show ?thesis using line "1.IH" [OF f refl] by blast
  qed
qed

lemma analyze_loop_Nil: "analyze_loop L n sc [] = Inr sc"
  by (simp add: analyze_loop.simps [of L n sc "[]"] fgets_def)

lemma long_body_facts:
  "newline \<notin> set long_body"
  "line_sz \<le> length (long_body @ [newline])"
  "drop 198 (long_body @ [newline]) = []"
  "field 0 (take 99 (drop 99 (long_body @ [newline]))) = Some ''WA''"
  "process_line libc_dec NUM_STATES (replicate NUM_STATES None, 0)
     (take 99 (long_body @ [newline])) =
   Inr (long_states[1 := None], 1)"
  "process_line libc_dec NUM_STATES (long_states[1 := None], 1)
     (take 99 (drop 99 (long_body @ [newline]))) =
   Inr (long_states, 2)"
  by code_simp+

lemma process_line_incomplete:
  assumes "field 8 line = None"
  shows "\<exists>e. process_line L n sc line = Inl e"
proof -
  have u: "update_info L a (snd (strtok (c_str line))) = Inl NullDeref" for a
    using update_info_incomplete [OF assms, of L a] by (simp add: line_rest_def)
  show ?thesis
  proof (cases "find_or_create n sc (fst (strtok (c_str line)))")
    case (Inl e)
    then show ?thesis by (simp add: process_line_def case_prod_beta)
  next
    case (Inr r)
    obtain states cur k where r: "r = (states, cur, k)" by (cases r)
    show ?thesis
      using Inr r u by (cases "states ! k") (simp_all add: process_line_def case_prod_beta)
  qed
qed

lemma process_lines_incomplete:
  "b \<in> set ls \<Longrightarrow> field 8 b = None \<Longrightarrow> \<exists>e. process_lines L n sc ls = Inl e"
proof (induction ls arbitrary: sc)
  case Nil
  then show ?case by simp
next
  case (Cons l ls)
  show ?case
  proof (cases "process_line L n sc l")
    case (Inl e)
    then show ?thesis by simp
  next
    case (Inr sc')
    then have "b \<noteq> l"
      using Cons.prems(2) process_line_incomplete [of l L n sc] by auto
    then have "b \<in> set ls" using Cons.prems(1) by simp
    then show ?thesis using Inr Cons.IH [OF _ Cons.prems(2), of sc'] by simp
  qed
qed

lemma exact_body_facts:
  "newline \<notin> set exact_body"
  "line_sz \<le> length (exact_body @ [newline])"
  "field 8 (take 99 (exact_body @ [newline])) = Some ''290.0''"
  "field 8 (take 99 (drop 99 (exact_body @ [newline]))) = None"
  by code_simp+

section \<open>The claims\<close>

text \<open>
  C1. A state with exactly one record should have its minimum and maximum temperature both
  equal to that record's temperature. On the scenario line (one record for TN, 290.0 K at
  timestamp 1000) the entry keeps \<open>minTemp = -9999\<close> and \<open>maxTemp = 9999\<close>, the values
  lines 193 and 194 store, and both timestamps stay 0: \<open>290 < -9999\<close> and
  \<open>290 > 9999\<close> are both false.
\<close>

theorem single_record_keeps_sentinels:
  "analyze_file libc_dec scenario_line (replicate NUM_STATES None) NUM_STATES =
     Inr (Some \<lparr>code = ''TN'', num_records = 1, avgHumidity = 50, temperature = 290,
                maxTemp = 9999, maxTempTimestamp = 0, minTemp = - 9999,
                minTempTimestamp = 0, lightning = 1, snow = 0, cloud = 60,
                geoLocation = 103, pressure = 1000\<rparr> # replicate 49 None)"
  by code_simp

text \<open>
  C2. The first record of a state should update both extrema and record its timestamp for
  each. Folding the scenario's fields (290.0 K at timestamp 1000) into the new entry of TN
  updates neither: \<open>minTemp\<close> stays at -9999 and \<open>maxTemp\<close> at 9999, the values
  stored by lines 193 and 194, and both timestamps stay 0, because the comparisons of lines
  226 and 231 are made against those swapped starting values.
\<close>

theorem first_record_sets_neither_extremum:
  "update_info libc_dec (new_info ''TN'')
     (tdv_line [''1000'', ''geo'', ''50.0'', ''0'', ''60.0'', ''1'', ''1000.0'', ''290.0'']) =
   Inr \<lparr>code = ''TN'', num_records = 1, avgHumidity = 50, temperature = 290,
        maxTemp = 9999, maxTempTimestamp = 0, minTemp = - 9999, minTempTimestamp = 0,
        lightning = 1, snow = 0, cloud = 60, geoLocation = 103, pressure = 1000\<rparr>"
  by code_simp

text \<open>
  C3 (as stated). A file of \<open>2 ^ 32\<close> lines for one state is read as \<open>2 ^ 32\<close>
  lines, all folded, and leaves the state's \<open>num_records\<close>, a 32-bit counter, at 0: the
  count is not the number of lines.
\<close>

theorem record_count_wraps_to_zero:
  "length (file_lines big_file) = 2 ^ 32 \<and>
   (case analyze_file libc_dec big_file (replicate NUM_STATES None) NUM_STATES of
      Inl e \<Rightarrow> False
    | Inr states \<Rightarrow> map num_records (entries states) = [0])"
proof -
  from big_file_run obtain a where
    a: "absorb_all libc_dec NUM_STATES [] (file_lines big_file) = Inr [a]" "num_records a = 0"
    by blast
  have "analyze_file libc_dec big_file (tbl NUM_STATES []) NUM_STATES = Inr (tbl NUM_STATES [a])"
    using a(1) by (simp add: analyze_file_tbl)
  then show ?thesis
    using a(2) by (simp add: tbl_Nil entries_tbl big_file_lines)
qed

text \<open>
  C3 (amended). When the aggregation of all files completes, each entry's \<open>num_records\<close>
  is the number of lines read for its state code, modulo \<open>2 ^ 32\<close>; and when every state
  has fewer than \<open>2 ^ 32\<close> lines, the counts of all entries add up to the number of lines
  read. (A run that completes has folded every line it read.)
\<close>

theorem record_counts_modulo:
  assumes "main_loop L fs i paths (replicate NUM_STATES None) err = Inr (states, err')"
  shows "(\<forall>a\<in>set (entries states).
            unat (num_records a) = length (lines_of (code a) (input_lines fs paths)) mod 2 ^ 32) \<and>
         ((\<forall>a\<in>set (entries states).
             length (lines_of (code a) (input_lines fs paths)) < 2 ^ 32) \<longrightarrow>
          (\<Sum>a\<leftarrow>entries states. unat (num_records a)) = length (input_lines fs paths))"
proof -
  let ?ls = "input_lines fs paths"
  let ?cs = "first_seen (line_codes ?ls)"
  note r = run_entries [OF assms]
  have each: "unat (num_records a) = length (lines_of (code a) ?ls) mod 2 ^ 32"
    if "a \<in> set (entries states)" for a
  proof -
    from that r(1) obtain c where "a = fold_info L ?ls c" by auto
    then show ?thesis using r(4) by (simp add: fold_info_sums(1) unat_of_nat)
  qed
  have total: "(\<Sum>a\<leftarrow>entries states. unat (num_records a)) = length ?ls"
    if small: "\<forall>a\<in>set (entries states). length (lines_of (code a) ?ls) < 2 ^ 32"
  proof -
    have "(\<Sum>a\<leftarrow>entries states. unat (num_records a)) =
          (\<Sum>a\<leftarrow>entries states. length (lines_of (code a) ?ls))"
      using each small by (intro arg_cong [where f = sum_list] map_cong refl) simp
    also have "\<dots> = (\<Sum>c\<leftarrow>?cs. length (lines_of c ?ls))"
      by (simp add: r(1) comp_def)
    also have "\<dots> = length ?ls"
      using r(4) by (intro count_lines_sum) simp_all
    finally show ?thesis .
  qed
  from each total show ?thesis by blast
qed

text \<open>The example run: two lines for WA, one for TN, three lines read.\<close>

theorem record_counts_modulo_witness:
  "main_loop libc_dec example_fs 1 (tl example_argv) (replicate NUM_STATES None) [] =
     Inr (example_states, [CouldNotOpen 2]) \<and>
   map (\<lambda>a. unat (num_records a)) (entries example_states) = [2, 1] \<and>
   (\<Sum>a\<leftarrow>entries example_states. unat (num_records a)) =
     length (input_lines example_fs (tl example_argv))"
proof -
  let ?ls = "input_lines example_fs (tl example_argv)"
  note t = record_counts_modulo [OF example_run]
  have small: "\<forall>a\<in>set (entries example_states). length (lines_of (code a) ?ls) < 2 ^ 32"
    using set_via_map [OF example_entries(1), of "\<lambda>c. length (lines_of c ?ls) < 2 ^ 32"]
    by (simp add: example_lines)
  with t have "(\<Sum>a\<leftarrow>entries example_states. unat (num_records a)) = length ?ls"
    by blast
  moreover have "map (\<lambda>a. unat (num_records a)) (entries example_states) = [2, 1]"
    using example_entries(2) [THEN arg_cong, of "map unat"] by (simp add: comp_def)
  ultimately show ?thesis using example_run by simp
qed

text \<open>
  C4. When the aggregation of all files completes, the entries of the array stand in the
  order in which their state codes were first seen over all lines read, file after file in
  argument order; the report lists the codes in its first line and prints the blocks of the
  states in that same order.
\<close>

theorem table_order_first_seen:
  assumes "main_loop L fs i paths (replicate NUM_STATES None) err = Inr (states, err')"
  shows "map code (entries states) = first_seen (line_codes (input_lines fs paths)) \<and>
         [c. StateHeader c \<leftarrow> print_report states NUM_STATES] =
           first_seen (line_codes (input_lines fs paths)) \<and>
         hd (print_report states NUM_STATES) =
           StatesFound (first_seen (line_codes (input_lines fs paths)))"
proof -
  note r = run_entries [OF assms]
  have c: "map code (entries states) = first_seen (line_codes (input_lines fs paths))"
    by (simp add: r(1) comp_def)
  have "print_report states NUM_STATES =
      StatesFound (map code (entries states)) # concat (map state_block (entries states))"
    using print_report_tbl [OF r(3)] r(2) by simp
  then show ?thesis using c by (simp add: state_block_headers)
qed

text \<open>Lines for WA, TN, WA, over two files: the order is WA, TN.\<close>

theorem table_order_first_seen_witness:
  "main_loop libc_dec example_fs 1 (tl example_argv) (replicate NUM_STATES None) [] =
     Inr (example_states, [CouldNotOpen 2]) \<and>
   line_codes (input_lines example_fs (tl example_argv)) = [''WA'', ''TN'', ''WA''] \<and>
   map code (entries example_states) = [''WA'', ''TN''] \<and>
   [c. StateHeader c \<leftarrow> print_report example_states NUM_STATES] = [''WA'', ''TN''] \<and>
   hd (print_report example_states NUM_STATES) = StatesFound [''WA'', ''TN'']"
proof -
  have "first_seen (line_codes (input_lines example_fs (tl example_argv))) = [''WA'', ''TN'']"
    by (simp add: example_lines)
  with table_order_first_seen [OF example_run] example_run example_lines(2)
  show ?thesis by simp
qed

text \<open>
  C5. When the aggregation completes, the fields \<open>avgHumidity\<close> and \<open>temperature\<close> of
  every entry hold the sums of the humidity and temperature fields of the state's lines,
  not averages; the report prints as average humidity (with \<open>%.1f\<close>) the quotient
  \<open>avgHumidity / num_records\<close> and as average temperature
  \<open>(temperature / num_records) * 1.8 - 459.67\<close>, computed when the report is printed.
  Doubles are taken as reals here.
\<close>

theorem averages_from_sums:
  assumes "main_loop L fs i paths (replicate NUM_STATES None) err = Inr (states, err')"
  shows "(\<forall>a\<in>set (entries states).
            avgHumidity a = (\<Sum>l\<leftarrow>lines_of (code a) (input_lines fs paths). humidity_of L l) \<and>
            temperature a = (\<Sum>l\<leftarrow>lines_of (code a) (input_lines fs paths). temperature_of L l)) \<and>
         [q. AverageHumidity q \<leftarrow> print_report states NUM_STATES] =
           map (\<lambda>a. ddiv (avgHumidity a) (num_records a)) (entries states) \<and>
         [q. AverageTemperature q \<leftarrow> print_report states NUM_STATES] =
           map (\<lambda>a. map_option (\<lambda>m. m * 1.8 - 459.67) (ddiv (temperature a) (num_records a)))
             (entries states)"
proof -
  let ?ls = "input_lines fs paths"
  note r = run_entries [OF assms]
  have sums: "avgHumidity a = (\<Sum>l\<leftarrow>lines_of (code a) ?ls. humidity_of L l) \<and>
      temperature a = (\<Sum>l\<leftarrow>lines_of (code a) ?ls. temperature_of L l)"
    if "a \<in> set (entries states)" for a
  proof -
    from that r(1) obtain c where "a = fold_info L ?ls c" by auto
    then show ?thesis using r(4) by (simp add: fold_info_sums)
  qed
  have "print_report states NUM_STATES =
      StatesFound (map code (entries states)) # concat (map state_block (entries states))"
    using print_report_tbl [OF r(3)] r(2) by simp
  then show ?thesis using sums
    by (simp add: state_block_humidity state_block_temperature)
qed

text \<open>The example run: 124 / 2 and 50 / 1 percent, and 290 K for both states.\<close>

theorem averages_from_sums_witness:
  "main_loop libc_dec example_fs 1 (tl example_argv) (replicate NUM_STATES None) [] =
     Inr (example_states, [CouldNotOpen 2]) \<and>
   [q. AverageHumidity q \<leftarrow> print_report example_states NUM_STATES] = [Some 62, Some 50] \<and>
   [q. AverageTemperature q \<leftarrow> print_report example_states NUM_STATES] =
     [Some (290 * 1.8 - 459.67), Some (290 * 1.8 - 459.67)]"
proof -
  have e: "entries example_states =
    [\<lparr>code = ''WA'', num_records = 2, avgHumidity = 124, temperature = 580,
           maxTemp = 9999, maxTempTimestamp = 0, minTemp = - 9999, minTempTimestamp = 0,
           lightning = 1, snow = 1, cloud = 90, geoLocation = 198, pressure = 1985\<rparr>,
     \<lparr>code = ''TN'', num_records = 1, avgHumidity = 50, temperature = 290,
             maxTemp = 9999, maxTempTimestamp = 0, minTemp = - 9999, minTempTimestamp = 0,
             lightning = 1, snow = 0, cloud = 60, geoLocation = 103, pressure = 1000\<rparr>]"
    by code_simp
  from averages_from_sums [OF example_run] example_run
  show ?thesis by (simp add: e ddiv_def)
qed

text \<open>
  C6. When the lines read so far are well formed and hold \<open>NUM_STATES\<close> (50) distinct
  state codes, a line with one more code ends the process: exit status 1, the message of
  line 188 as the last line of the error stream, and no report. And a run whose lines hold
  at most 50 distinct state codes never writes that message, whatever else happens.
\<close>

theorem capacity_abort:
  "(2 \<le> length argv \<and> input_lines fs (tl argv) = pre @ l # post \<and>
    list_all well_formed pre \<and> card (set (line_codes pre)) = NUM_STATES \<and>
    field 0 l = Some c \<and> c \<notin> set (line_codes pre) \<longrightarrow>
    exit_status (main L fs argv) = ExitStatus 1 \<and> stdout (main L fs argv) = [] \<and>
    stderr (main L fs argv) \<noteq> [] \<and>
    last (stderr (main L fs argv)) = TooManyStatesMsg NUM_STATES) \<and>
   (card (set (line_codes (input_lines fs (tl argv)))) \<le> NUM_STATES \<longrightarrow>
    (\<forall>k. TooManyStatesMsg k \<notin> set (stderr (main L fs argv))))"
proof (intro conjI impI allI)
  fix k
  assume few: "card (set (line_codes (input_lines fs (tl argv)))) \<le> NUM_STATES"
  show "TooManyStatesMsg k \<notin> set (stderr (main L fs argv))"
  proof
    assume "TooManyStatesMsg k \<in> set (stderr (main L fs argv))"
    then have "absorb_all L NUM_STATES [] (input_lines fs (tl argv)) = Inl (TooManyStates k)"
      by (rule main_capacity_message)
    then have "NUM_STATES < card (set (line_codes (input_lines fs (tl argv))))"
      by (rule absorb_all_TooManyStates) (simp add: NUM_STATES_def)
    with few show False by simp
  qed
next
  assume h: "2 \<le> length argv \<and> input_lines fs (tl argv) = pre @ l # post \<and>
    list_all well_formed pre \<and> card (set (line_codes pre)) = NUM_STATES \<and>
    field 0 l = Some c \<and> c \<notin> set (line_codes pre)"
  then have argv: "2 \<le> length argv" and ls: "input_lines fs (tl argv) = pre @ l # post"
    and wf: "list_all well_formed pre" and full: "card (set (line_codes pre)) = NUM_STATES"
    and c: "field 0 l = Some c" "c \<notin> set (line_codes pre)" by simp_all
  have "\<exists>accs. absorb_all L NUM_STATES [] pre = Inr accs"
    using wf full
    by (intro absorb_all_progress)
       (auto simp: list_all_iff well_formed_def length_first_seen split: option.splits)
  then obtain accs0 where a0: "absorb_all L NUM_STATES [] pre = Inr accs0" ..
  from absorb_all_master [OF a0]
  have accs0: "accs0 = map (fold_info L pre) (first_seen (line_codes pre))" by simp
  then have codes: "code ` set accs0 = set (line_codes pre)" by (auto simp: image_iff)
  have len: "length accs0 = NUM_STATES"
    by (simp add: accs0 length_first_seen full)
  have "code_index c accs0 = None"
    using c(2) codes by (simp add: code_index_None)
  then have "absorb L NUM_STATES accs0 l = Inl (TooManyStates NUM_STATES)"
    using c(1) len by (simp add: absorb_def)
  then have "absorb_all L NUM_STATES [] (input_lines fs (tl argv)) = Inl (TooManyStates NUM_STATES)"
    using a0 by (simp add: ls absorb_all_append)
  from main_aborts [OF argv this] obtain err where
    "main L fs argv = \<lparr>exit_status = ExitStatus 1,
       stderr = err @ [TooManyStatesMsg NUM_STATES], stdout = []\<rparr>"
    by auto
  then show "exit_status (main L fs argv) = ExitStatus 1"
    "stdout (main L fs argv) = []" "stderr (main L fs argv) \<noteq> []"
    "last (stderr (main L fs argv)) = TooManyStatesMsg NUM_STATES"
    by simp_all
qed

text \<open>
  A file of 51 lines with 51 state codes ends at its last line; the example run, with two
  codes, writes no such message.
\<close>

theorem capacity_abort_witness:
  "input_lines crowded_fs (tl [''climate'', ''crowded.tdv'']) =
     map state_line [0..<50] @ state_line 50 # [] \<and>
   card (set (line_codes (map state_line [0..<50]))) = NUM_STATES \<and>
   field 0 (state_line 50) = Some ''BY'' \<and>
   ''BY'' \<notin> set (line_codes (map state_line [0..<50])) \<and>
   exit_status (main libc_dec crowded_fs [''climate'', ''crowded.tdv'']) = ExitStatus 1 \<and>
   stdout (main libc_dec crowded_fs [''climate'', ''crowded.tdv'']) = [] \<and>
   last (stderr (main libc_dec crowded_fs [''climate'', ''crowded.tdv''])) = TooManyStatesMsg 50 \<and>
   card (set (line_codes (input_lines example_fs (tl example_argv)))) \<le> NUM_STATES \<and>
   TooManyStatesMsg 50 \<notin> set (stderr (main libc_dec example_fs example_argv))"
proof -
  let ?argv = "[''climate'', ''crowded.tdv'']"
  have "input_lines crowded_fs (tl ?argv) = file_lines (concat (map state_line [0..<51]))"
    by (simp add: input_lines_def crowded_fs_def)
  also have "\<dots> = map state_line [0..<51]"
    by (rule file_lines_short_enough [OF crowded_facts(1)])
  also have "\<dots> = map state_line [0..<50] @ state_line 50 # []"
    by (simp only: crowded_facts(7) map_append list.map)
  finally have ls: "input_lines crowded_fs (tl ?argv) = map state_line [0..<50] @ state_line 50 # []" .
  have full: "card (set (line_codes (map state_line [0..<50]))) = NUM_STATES"
    by (simp only: crowded_facts(3,4))
  have new: "''BY'' \<notin> set (line_codes (map state_line [0..<50]))"
    by (simp only: crowded_facts(3,6) not_False_eq_True)
  have argv: "2 \<le> length ?argv" by simp
  have few: "card (set (line_codes (input_lines example_fs (tl example_argv)))) \<le> NUM_STATES"
    by (simp add: example_lines(2) NUM_STATES_def card_insert_if)
  from capacity_abort [where argv = ?argv and fs = crowded_fs
      and pre = "map state_line [0..<50]" and l = "state_line 50" and post = "[]"
      and c = "''BY''" and L = libc_dec]
    argv ls crowded_facts(2) full crowded_facts(5) new
  have 1: "exit_status (main libc_dec crowded_fs ?argv) = ExitStatus 1 \<and>
      stdout (main libc_dec crowded_fs ?argv) = [] \<and>
      last (stderr (main libc_dec crowded_fs ?argv)) = TooManyStatesMsg 50"
    by (simp add: NUM_STATES_def)
  from capacity_abort [where argv = example_argv and fs = example_fs and L = libc_dec] few
  have 2: "TooManyStatesMsg 50 \<notin> set (stderr (main libc_dec example_fs example_argv))"
    by blast
  from ls full crowded_facts(5) new 1 few 2 show ?thesis by blast
qed

text \<open>
  C7 (as stated). A file whose first line has only five fields, followed by a complete
  line: the run does not reject the short line and go on. It stops at the short line by
  reading through the null pointer that \<open>strtok\<close> returns for the missing sixth field;
  the second line is never read and no report is printed.
\<close>

theorem short_line_stops_run:
  "main libc_dec short_fs [''climate'', ''short.tdv''] =
     \<lparr>exit_status = Crashed NullDeref, stderr = [], stdout = []\<rparr>"
  by code_simp

text \<open>
  C7 (amended). A line with fewer than nine fields (so every line with fewer than eight,
  such as one with five) is not rejected on its own: a run that reads such a line, in any
  file, does not complete. The process stops at that line or before it, and nothing is
  printed on standard output.
\<close>

theorem incomplete_line_stops_run:
  assumes "2 \<le> length argv"
    and "l \<in> set (input_lines fs (tl argv))"
    and "field 8 l = None"
  shows "exit_status (main L fs argv) \<noteq> ExitStatus 0 \<and> stdout (main L fs argv) = []"
proof -
  have "exit_status (main L fs argv) \<noteq> ExitStatus 0"
  proof
    assume "exit_status (main L fs argv) = ExitStatus 0"
    then obtain accs where "absorb_all L NUM_STATES [] (input_lines fs (tl argv)) = Inr accs"
      by (auto simp: main_status_0)
    from absorb_all_master [OF this] assms(2,3) show False by auto
  qed
  then show ?thesis using main_not_completed [OF assms(1)] by simp
qed

text \<open>The five-field line of \<open>short.tdv\<close>.\<close>

theorem incomplete_line_stops_run_witness:
  "2 \<le> length [''climate'', ''short.tdv''] \<and>
   short_line \<in> set (input_lines short_fs (tl [''climate'', ''short.tdv''])) \<and>
   field 8 short_line = None \<and> field 4 short_line = Some ''0'' \<and> field 5 short_line = None \<and>
   exit_status (main libc_dec short_fs [''climate'', ''short.tdv'']) \<noteq> ExitStatus 0 \<and>
   stdout (main libc_dec short_fs [''climate'', ''short.tdv'']) = []"
proof -
  have 1: "2 \<le> length [''climate'', ''short.tdv'']" by simp
  have 2: "short_line \<in> set (input_lines short_fs (tl [''climate'', ''short.tdv'']))"
    by code_simp
  have 3: "field 8 short_line = None" "field 4 short_line = Some ''0''" "field 5 short_line = None"
    by code_simp+
  from incomplete_line_stops_run [OF 1 2 3(1)] 1 2 3 show ?thesis by blast
qed

text \<open>
  C8. A path that does not open is reported on the error stream by its argument number and
  skipped: the report of the run is the report of the aggregation of the files that do
  open, in argument order, the run completes exactly when that aggregation does, and a
  completed run has written one message for each argument that did not open.
\<close>

theorem unopenable_files_are_skipped:
  assumes "2 \<le> length argv"
  shows "stdout (main L fs argv) =
      (case analyze_files L (opened fs (tl argv)) (replicate NUM_STATES None) of
         Inl e \<Rightarrow> []
       | Inr states \<Rightarrow> print_report states NUM_STATES) \<and>
    (exit_status (main L fs argv) = ExitStatus 0 \<longleftrightarrow>
       (\<exists>states. analyze_files L (opened fs (tl argv)) (replicate NUM_STATES None) = Inr states)) \<and>
    (exit_status (main L fs argv) = ExitStatus 0 \<longrightarrow>
       stderr (main L fs argv) =
         [CouldNotOpen k. k \<leftarrow> [1..<length argv], fs (argv ! k) = None])"
proof (cases "main_loop L fs 1 (tl argv) (replicate NUM_STATES None) []")
  case (Inl a)
  obtain e err' where a: "a = (e, err')" by (cases a)
  have "analyze_files L (opened fs (tl argv)) (replicate NUM_STATES None) = Inl e"
    using main_loop_files [where L = L and fs = fs and i = 1 and paths = "tl argv"
        and states = "replicate NUM_STATES None" and err = "[]"] Inl a by simp
  then show ?thesis using assms Inl a by (cases e) (simp_all add: main_def)
next
  case (Inr b)
  obtain states err' where b: "b = (states, err')" by (cases b)
  have "analyze_files L (opened fs (tl argv)) (replicate NUM_STATES None) = Inr states \<and>
      err' = [] @ open_errors fs 1 (tl argv)"
    using main_loop_files [where L = L and fs = fs and i = 1 and paths = "tl argv"
        and states = "replicate NUM_STATES None" and err = "[]"] Inr b by simp
  then show ?thesis using assms Inr b open_errors_argv [OF assms, of fs]
    by (simp add: main_def)
qed

text \<open>The example run: the second argument does not open, the other two are reported.\<close>

theorem unopenable_files_are_skipped_witness:
  "2 \<le> length example_argv \<and>
   example_fs (example_argv ! 2) = None \<and>
   length (opened example_fs (tl example_argv)) = 2 \<and>
   analyze_files libc_dec (opened example_fs (tl example_argv)) (replicate NUM_STATES None) =
     Inr example_states \<and>
   stdout (main libc_dec example_fs example_argv) = print_report example_states NUM_STATES \<and>
   exit_status (main libc_dec example_fs example_argv) = ExitStatus 0 \<and>
   stderr (main libc_dec example_fs example_argv) = [CouldNotOpen 2]"
proof -
  have 1: "2 \<le> length example_argv" by (simp add: example_argv_def)
  have 2: "analyze_files libc_dec (opened example_fs (tl example_argv)) (replicate NUM_STATES None) =
     Inr example_states" by code_simp
  have 3: "example_fs (example_argv ! 2) = None"
    "length (opened example_fs (tl example_argv)) = 2"
    by code_simp+
  have 4: "[CouldNotOpen k. k \<leftarrow> [1..<length example_argv], example_fs (example_argv ! k) = None] =
    [CouldNotOpen 2]" by code_simp
  note t = unopenable_files_are_skipped [OF 1, of libc_dec example_fs]
  from t 2 have s: "stdout (main libc_dec example_fs example_argv) = print_report example_states NUM_STATES"
    and e: "exit_status (main libc_dec example_fs example_argv) = ExitStatus 0" by simp_all
  with t 4 have "stderr (main libc_dec example_fs example_argv) = [CouldNotOpen 2]" by simp
  with 1 2 3 s e show ?thesis by blast
qed

text \<open>
  C9 (as stated). After \<open>2 ^ 32\<close> lines for one state the run completes and the reporter
  receives an entry whose \<open>num_records\<close> is 0: it prints 0 records and divides by zero
  for the average.
\<close>

theorem zero_count_reaches_reporter:
  "exit_status (main libc_dec big_fs [''climate'', ''big.tdv'']) = ExitStatus 0 \<and>
   [k. NumberOfRecords k \<leftarrow> stdout (main libc_dec big_fs [''climate'', ''big.tdv''])] = [0] \<and>
   [q. AverageHumidity q \<leftarrow> stdout (main libc_dec big_fs [''climate'', ''big.tdv''])] = [None]"
proof -
  from big_file_run obtain a where
    a: "absorb_all libc_dec NUM_STATES [] (file_lines big_file) = Inr [a]" "num_records a = 0"
    by blast
  have i: "input_lines big_fs [''big.tdv''] = file_lines big_file"
    by (simp add: input_lines_def big_fs_def)
  have "main libc_dec big_fs [''climate'', ''big.tdv''] =
    \<lparr>exit_status = ExitStatus 0, stderr = open_errors big_fs 1 [''big.tdv''],
     stdout = print_report (tbl NUM_STATES [a]) NUM_STATES\<rparr>"
    using a(1) main_completes [of "[''climate'', ''big.tdv'']" libc_dec big_fs "[a]"]
    by (simp add: i)
  then show ?thesis
    using a(2) by (simp add: print_report_tbl NUM_STATES_def state_block_def Let_def ddiv_def)
qed

text \<open>
  C9 (amended). Every entry that reaches the reporter has had at least one line folded into
  it; its \<open>num_records\<close> is 0 exactly when the number of its lines is a multiple of
  \<open>2 ^ 32\<close>, so the reporter's divisors are nonzero for every state with fewer than
  \<open>2 ^ 32\<close> lines.
\<close>

theorem reported_entries_have_lines:
  assumes "main_loop L fs i paths (replicate NUM_STATES None) err = Inr (states, err')"
  shows "\<forall>a\<in>set (entries states).
           lines_of (code a) (input_lines fs paths) \<noteq> [] \<and>
           (num_records a = 0 \<longleftrightarrow> 2 ^ 32 dvd length (lines_of (code a) (input_lines fs paths))) \<and>
           (length (lines_of (code a) (input_lines fs paths)) < 2 ^ 32 \<longrightarrow> num_records a \<noteq> 0)"
proof
  fix a assume a: "a \<in> set (entries states)"
  let ?ls = "input_lines fs paths"
  note r = run_entries [OF assms]
  from a r(1) obtain c where c: "a = fold_info L ?ls c" "c \<in> set (line_codes ?ls)" by auto
  then have ne: "lines_of (code a) ?ls \<noteq> []" by (simp add: lines_of_nonempty)
  have n: "num_records a = of_nat (length (lines_of (code a) ?ls))"
    using c r(4) by (simp add: fold_info_sums(1))
  have z: "num_records a = 0 \<longleftrightarrow> 2 ^ 32 dvd length (lines_of (code a) ?ls)"
    unfolding n by (simp add: word_of_nat_eq_0_iff)
  have "num_records a \<noteq> 0" if "length (lines_of (code a) ?ls) < 2 ^ 32"
  proof -
    have "0 < length (lines_of (code a) ?ls)" using ne by simp
    then have "\<not> 2 ^ 32 dvd length (lines_of (code a) ?ls)"
      using that by (meson dvd_imp_le not_less)
    then show ?thesis using z by simp
  qed
  with ne z show "lines_of (code a) ?ls \<noteq> [] \<and>
           (num_records a = 0 \<longleftrightarrow> 2 ^ 32 dvd length (lines_of (code a) ?ls)) \<and>
           (length (lines_of (code a) ?ls) < 2 ^ 32 \<longrightarrow> num_records a \<noteq> 0)" by blast
qed

text \<open>The example run: two lines and one line, neither count is zero.\<close>

theorem reported_entries_have_lines_witness:
  "main_loop libc_dec example_fs 1 (tl example_argv) (replicate NUM_STATES None) [] =
     Inr (example_states, [CouldNotOpen 2]) \<and>
   map (\<lambda>a. length (lines_of (code a) (input_lines example_fs (tl example_argv))))
     (entries example_states) = [2, 1] \<and>
   map (\<lambda>a. num_records a = 0) (entries example_states) = [False, False]"
proof -
  let ?ls = "input_lines example_fs (tl example_argv)"
  note t = reported_entries_have_lines [OF example_run]
  have c: "map (\<lambda>a. length (lines_of (code a) ?ls)) (entries example_states) = [2, 1]"
    using example_entries(1) [THEN arg_cong, of "map (\<lambda>c. length (lines_of c ?ls))"]
    by (simp add: comp_def example_lines)
  have small: "\<forall>a\<in>set (entries example_states). length (lines_of (code a) ?ls) < 2 ^ 32"
    using set_via_map [OF example_entries(1), of "\<lambda>c. length (lines_of c ?ls) < 2 ^ 32"]
    by (simp add: example_lines)
  with t have "\<forall>a\<in>set (entries example_states). num_records a \<noteq> 0" by blast
  then have "map (\<lambda>a. num_records a = 0) (entries example_states) =
      map (\<lambda>a. False) (entries example_states)"
    by (intro map_cong refl) simp
  also have "\<dots> = [False, False]"
    using example_entries(1) [THEN arg_cong, of length] by (simp add: map_replicate_const numeral_2_eq_2)
  finally show ?thesis using example_run c by simp
qed

text \<open>
  C10 (as stated). A record of nine fields that is exactly 100 characters long with its
  newline is not folded as several records: its first 99 characters are folded as a record
  for TN, the newline left over is read as a line of its own, which has no field at all,
  and the process stops on the null pointer that \<open>strtok\<close> returns for its state code.
\<close>

theorem hundred_character_record_aborts:
  "length (exact_body @ [newline]) = 100 \<and> newline \<notin> set exact_body \<and>
   field 8 (exact_body @ [newline]) = Some ''290.0'' \<and> field 9 (exact_body @ [newline]) = None \<and>
   analyze_file libc_dec (exact_body @ [newline]) (replicate NUM_STATES None) NUM_STATES =
     Inl NullDeref"
  by code_simp

text \<open>
  C10 (amended). A physical line of 100 characters or more, newline included, is not read
  whole: its first 99 characters and then the next 99 (or what is left up to the newline)
  are the first two buffers read, each is handed to the loop body as a line of its own, so
  the first field of the second buffer is taken as a state code, and the loop goes on with
  what remains of the line. No buffer is longer than 99 characters. The line is never
  rejected as a line; whenever one of the buffers read has fewer than nine fields, the
  process stops in the loop instead of folding the rest.
\<close>

theorem long_line_chunks_as_lines:
  assumes "newline \<notin> set body" and "line_sz \<le> length (body @ [newline])"
  shows "analyze_loop L n sc (body @ newline # rest) =
      bind_abort (process_line L n sc (take 99 (body @ [newline]))) (\<lambda>sc1.
      bind_abort (process_line L n sc1 (take 99 (drop 99 (body @ [newline])))) (\<lambda>sc2.
      analyze_loop L n sc2 (drop 198 (body @ [newline]) @ rest))) \<and>
    length (take 99 (body @ [newline])) = 99 \<and>
    take 99 (drop 99 (body @ [newline])) \<noteq> [] \<and>
    file_lines (body @ newline # rest) =
      take 99 (body @ [newline]) # take 99 (drop 99 (body @ [newline]))
      # file_lines (drop 198 (body @ [newline]) @ rest) \<and>
    (\<forall>b\<in>set (file_lines (body @ newline # rest)). length b \<le> 99) \<and>
    ((\<exists>b\<in>set (file_lines (body @ newline # rest)). field 8 b = None) \<longrightarrow>
     (\<exists>e. analyze_loop L n sc (body @ newline # rest) = Inl e))"
proof -
  have len: "99 \<le> length body" using assms(2) by (simp add: line_sz_def)
  let ?b' = "drop 99 body"
  let ?c1 = "take 99 (body @ [newline])"
  let ?c2 = "take 99 (drop 99 (body @ [newline]))"
  have b': "newline \<notin> set ?b'" using assms(1) by (auto dest: in_set_dropD)
  have d: "drop 99 (body @ [newline]) = ?b' @ [newline]" using len by simp
  have dd: "drop 198 (body @ [newline]) = drop 99 (drop 99 (body @ [newline]))"
    by (simp only: drop_drop) simp
  have f1: "fgets line_sz (body @ newline # rest) = Some (?c1, ?b' @ newline # rest)"
    by (simp only: fgets_physical_line [OF assms(1)] d append_assoc append_Cons append_Nil)
  have f2: "fgets line_sz (?b' @ newline # rest) =
      Some (?c2, drop 198 (body @ [newline]) @ rest)"
    by (simp only: fgets_physical_line [OF b'] dd d)
  have u1: "analyze_loop L n sc (body @ newline # rest) =
      bind_abort (process_line L n sc ?c1)
        (\<lambda>sc1. analyze_loop L n sc1 (?b' @ newline # rest))"
    by (simp add: analyze_loop.simps [of L n sc "body @ newline # rest"] f1 bind_abort_def)
  have u2: "analyze_loop L n sc1 (?b' @ newline # rest) =
      bind_abort (process_line L n sc1 ?c2)
        (\<lambda>sc2. analyze_loop L n sc2 (drop 198 (body @ [newline]) @ rest))" for sc1
    by (simp add: analyze_loop.simps [of L n sc1 "?b' @ newline # rest"] f2 bind_abort_def)
  have unroll: "analyze_loop L n sc (body @ newline # rest) =
      bind_abort (process_line L n sc ?c1) (\<lambda>sc1.
      bind_abort (process_line L n sc1 ?c2) (\<lambda>sc2.
      analyze_loop L n sc2 (drop 198 (body @ [newline]) @ rest)))"
    by (simp add: u1 u2)
  have chunks: "file_lines (body @ newline # rest) =
      ?c1 # ?c2 # file_lines (drop 198 (body @ [newline]) @ rest)"
    by (simp add: file_lines.simps [of "body @ newline # rest"] f1
        file_lines.simps [of "?b' @ newline # rest"] f2)
  have stop: "\<exists>e. analyze_loop L n sc (body @ newline # rest) = Inl e"
    if "\<exists>b\<in>set (file_lines (body @ newline # rest)). field 8 b = None"
    using that process_lines_incomplete [of _ "file_lines (body @ newline # rest)" L n sc]
    by (auto simp: analyze_loop_lines)
  have "take 99 (?b' @ [newline]) \<noteq> []" by (cases ?b') simp_all
  then have ne: "?c2 \<noteq> []" unfolding d .
  have l1: "length ?c1 = 99" using len by simp
  have bound: "\<forall>b\<in>set (file_lines (body @ newline # rest)). length b \<le> 99"
    using file_lines_bound by blast
  from unroll l1 ne chunks bound stop show ?thesis by blast
qed

text \<open>
  The line of \<open>long_body\<close>: the second buffer starts at the field WA, and the one physical
  line is folded as two records, one for TN and one for WA. The line of \<open>exact_body\<close>: the
  second buffer is the newline alone, and the process stops.
\<close>

theorem long_line_chunks_as_lines_witness:
  "newline \<notin> set long_body \<and> line_sz \<le> length (long_body @ [newline]) \<and>
   field 0 (take 99 (drop 99 (long_body @ [newline]))) = Some ''WA'' \<and>
   analyze_loop libc_dec NUM_STATES (replicate NUM_STATES None, 0) (long_body @ newline # []) =
     Inr (long_states, 2) \<and>
   newline \<notin> set exact_body \<and> line_sz \<le> length (exact_body @ [newline]) \<and>
   field 8 (take 99 (exact_body @ [newline])) = Some ''290.0'' \<and>
   field 8 (take 99 (drop 99 (exact_body @ [newline]))) = None \<and>
   (\<exists>e. analyze_loop libc_dec NUM_STATES (replicate NUM_STATES None, 0)
          (exact_body @ newline # []) = Inl e)"
proof -
  note t = long_line_chunks_as_lines [OF long_body_facts(1,2), THEN conjunct1]
  have 1: "analyze_loop libc_dec NUM_STATES (replicate NUM_STATES None, 0)
      (long_body @ newline # []) = Inr (long_states, 2)"
    unfolding t long_body_facts(5) bind_abort_Inr long_body_facts(6) long_body_facts(3)
      append_Nil analyze_loop_Nil ..
  note e = long_line_chunks_as_lines [OF exact_body_facts(1,2), of libc_dec NUM_STATES
      "(replicate NUM_STATES None, 0)" "[]"]
  note chunks = e [THEN conjunct2, THEN conjunct2, THEN conjunct2, THEN conjunct1]
  note stop = e [THEN conjunct2, THEN conjunct2, THEN conjunct2, THEN conjunct2, THEN conjunct2]
  have "take 99 (drop 99 (exact_body @ [newline]))
      \<in> set (file_lines (exact_body @ newline # []))"
    unfolding chunks by (rule list.set_intros(2), rule list.set_intros(1))
  then have "\<exists>b\<in>set (file_lines (exact_body @ newline # [])). field 8 b = None"
    using exact_body_facts(4) by (rule bexI [rotated])
  with stop
  have 2: "\<exists>e. analyze_loop libc_dec NUM_STATES (replicate NUM_STATES None, 0)
      (exact_body @ newline # []) = Inl e"
    by (rule mp)
  show ?thesis
    by (intro conjI long_body_facts(1,2,4) 1 exact_body_facts 2)
qed

end
